theory Spec2Isabelle
  imports Complex_Main "HOL-Library.AList" "HOL-Library.Log_Nat"
begin

section \<open>Promises under the cooperative scheduler\<close>

text \<open>
  \<^verbatim>\<open>assets/photos.js\<close> runs on the browser's single-threaded event loop. A call of an
  async mapper starts its fetch at once and comes back with a pending promise; the rest of
  the mapper's body (everything after its last \<^verbatim>\<open>await\<close>) runs later, in one synchronous
  piece, and settles the promise. An invocation is therefore modelled by its continuation:
  the effect of that last piece on the state shared by all invocations, with the way the
  promise settles.
\<close>

datatype 'r settled = Fulfilled 'r | Rejected

type_synonym ('s, 'r) continuation = "'s \<Rightarrow> 's \<times> 'r settled"

datatype event = Started nat | Settled nat

text \<open>
  The state of one run of \<^verbatim>\<open>mapWithConcurrency\<close>: the shared state, the set
  \<^verbatim>\<open>executing\<close> in insertion order (a promise is named by the number of the loop
  iteration that created it), how each settled promise of \<^verbatim>\<open>results\<close> settled, and the
  history of the run.
\<close>

record ('s, 'r) run =
  shared :: 's
  executing :: "(nat \<times> ('s, 'r) continuation) list"
  outcomes :: "(nat \<times> 'r settled) list"
  trace :: "event list"

text \<open>
  Promise \<open>i\<close> settles: its continuation runs on the shared state, and the reaction
  \<^verbatim>\<open>cleanup\<close>, registered on the promise before any \<^verbatim>\<open>Promise.race\<close>, deletes it from
  \<^verbatim>\<open>executing\<close> before the loop can resume.
\<close>

definition settle :: "nat \<Rightarrow> ('s, 'r) run \<Rightarrow> ('s, 'r) run" where
  "settle i st =
     (case map_of (executing st) i of
        None \<Rightarrow> st
      | Some k \<Rightarrow>
          (case k (shared st) of
             (s', r) \<Rightarrow>
               st\<lparr>shared := s',
                  executing := filter (\<lambda>p. fst p \<noteq> i) (executing st),
                  outcomes := outcomes st @ [(i, r)],
                  trace := trace st @ [Settled i]\<rparr>))"

text \<open>
  The environment decides which pending promises settle, and in which order, while the
  loop is suspended: \<open>sched\<close> is given the promises in \<^verbatim>\<open>executing\<close> and answers with
  those that settle before the loop resumes, in the order in which they settle. The loop
  resumes only once at least one of them has settled, so an answer naming none of them
  is read as the oldest one. Every invocation that was started is taken to settle in the
  end: a fetch that never answers would keep its place in \<^verbatim>\<open>executing\<close> for ever.
\<close>

type_synonym scheduler = "nat list \<Rightarrow> nat list"

definition settling :: "scheduler \<Rightarrow> nat list \<Rightarrow> nat list" where
  "settling sched ids =
     (let s = remdups (filter (\<lambda>i. i \<in> set ids) (sched ids))
      in if s = [] then [hd ids] else s)"

text \<open>
  \<^verbatim>\<open>await Promise.race(executing)\<close>: the race settles as its first settled member does.
\<close>

definition await_race :: "scheduler \<Rightarrow> ('s, 'r) run \<Rightarrow> ('s, 'r) run \<times> bool" where
  "await_race sched st =
     (let ids = settling sched (map fst (executing st));
          st' = fold settle ids st
      in (st', map_of (outcomes st') (hd ids) \<noteq> Some Rejected))"

text \<open>
  The \<^verbatim>\<open>for\<close> loop of \<^verbatim>\<open>mapWithConcurrency\<close>. \<open>Inl\<close> is the loop left by the exception
  that \<^verbatim>\<open>await\<close> throws when the race rejects. The mapper is given the number of the
  invocation besides the item: it stands for the identity of the call, under which the
  environment's answer to the call's fetch is looked up.
\<close>

fun loop ::
  "(nat \<Rightarrow> 'a \<Rightarrow> ('s, 'r) continuation) \<Rightarrow> nat \<Rightarrow> scheduler \<Rightarrow> nat \<Rightarrow> 'a list \<Rightarrow>
   ('s, 'r) run \<Rightarrow> ('s, 'r) run + ('s, 'r) run" where
  "loop mapper concurrency sched i [] st = Inr st"
| "loop mapper concurrency sched i (item # rest) st =
     (let st1 = st\<lparr>executing := executing st @ [(i, mapper i item)],
                   trace := trace st @ [Started i]\<rparr>
      in if concurrency \<le> length (executing st1)
         then (case await_race sched st1 of
                 (st2, True) \<Rightarrow> loop mapper concurrency sched (Suc i) rest st2
               | (st2, False) \<Rightarrow> Inl st2)
         else loop mapper concurrency sched (Suc i) rest st1)"

text \<open>Every wait settles at least one pending promise, so waiting for all of them ends.\<close>

lemma settle_length_le: "length (executing (settle i st)) \<le> length (executing st)"
  by (simp add: settle_def split: option.split prod.split)

lemma settle_length_less:
  "i \<in> fst ` set (executing st) \<Longrightarrow> length (executing (settle i st)) < length (executing st)"
proof -
  assume a: "i \<in> fst ` set (executing st)"
  then obtain k where k: "map_of (executing st) i = Some k"
    by (metis map_of_eq_None_iff not_Some_eq)
  from a have "\<exists>p \<in> set (executing st). \<not> fst p \<noteq> i" by auto
  then obtain p where "p \<in> set (executing st)" and "\<not> fst p \<noteq> i" by blast
  then have "length (filter (\<lambda>p. fst p \<noteq> i) (executing st)) < length (executing st)"
    by (rule length_filter_less)
  with k show ?thesis
    by (simp add: settle_def split: prod.split)
qed

lemma fold_settle_length_le:
  "length (executing (fold settle ids st)) \<le> length (executing st)"
proof (induction ids arbitrary: st)
  case Nil
  show ?case by simp
next
  case (Cons i ids)
  have "length (executing (fold settle ids (settle i st))) \<le> length (executing (settle i st))"
    by (rule Cons.IH)
  also have "\<dots> \<le> length (executing st)" by (rule settle_length_le)
  finally show ?case by simp
qed

lemma settling_nonempty: "settling sched ids \<noteq> []"
  by (simp add: settling_def Let_def)

lemma settling_subset: "ids \<noteq> [] \<Longrightarrow> set (settling sched ids) \<subseteq> set ids"
  by (auto simp: settling_def Let_def)

lemma settling_distinct: "distinct (settling sched ids)"
  by (simp add: settling_def Let_def)

lemma await_race_length_less:
  assumes "executing st \<noteq> []"
  shows "length (executing (fst (await_race sched st))) < length (executing st)"
proof -
  let ?ids = "settling sched (map fst (executing st))"
  obtain i rest where ids: "?ids = i # rest"
    using settling_nonempty [of sched "map fst (executing st)"] by (cases ?ids) auto
  have "i \<in> set (map fst (executing st))"
    using settling_subset [of "map fst (executing st)" sched] assms ids by auto
  then have "length (executing (settle i st)) < length (executing st)"
    using settle_length_less [of i st] by simp
  moreover have "length (executing (fold settle rest (settle i st)))
      \<le> length (executing (settle i st))"
    by (rule fold_settle_length_le)
  ultimately show ?thesis
    by (simp add: await_race_def Let_def ids)
qed

text \<open>
  The promises still pending when the loop is over (or was left) settle in an order of
  the environment's choosing.
\<close>

function drain :: "scheduler \<Rightarrow> ('s, 'r) run \<Rightarrow> ('s, 'r) run" where
  "drain sched st =
     (if executing st = [] then st else drain sched (fst (await_race sched st)))"
  by pat_completeness auto
termination
  by (relation "measure (\<lambda>(sched, st). length (executing st))")
     (auto simp: await_race_length_less)

declare drain.simps [simp del]

lemma drain_done: "executing st = [] \<Longrightarrow> drain sched st = st"
  by (subst drain.simps) simp

lemma drain_step:
  "executing st \<noteq> [] \<Longrightarrow> drain sched st = drain sched (fst (await_race sched st))"
  by (subst drain.simps) simp

text \<open>
  \<^verbatim>\<open>Promise.all(results)\<close>: the values in the order of \<^verbatim>\<open>results\<close>, which is the order
  in which the invocations were started; rejected when one of them is.
\<close>

fun collect :: "(nat \<times> 'r settled) list \<Rightarrow> nat list \<Rightarrow> 'r list option" where
  "collect outs [] = Some []"
| "collect outs (i # is) =
     (case map_of outs i of
        Some (Fulfilled v) \<Rightarrow> (case collect outs is of Some vs \<Rightarrow> Some (v # vs) | None \<Rightarrow> None)
      | _ \<Rightarrow> None)"

definition promise_all :: "(nat \<times> 'r settled) list \<Rightarrow> nat \<Rightarrow> 'r list settled" where
  "promise_all outs n = (case collect outs [0..<n] of Some vs \<Rightarrow> Fulfilled vs | None \<Rightarrow> Rejected)"

definition mapWithConcurrency ::
  "'a list \<Rightarrow> (nat \<Rightarrow> 'a \<Rightarrow> ('s, 'r) continuation) \<Rightarrow> nat \<Rightarrow> scheduler \<Rightarrow> 's \<Rightarrow>
   'r list settled \<times> ('s, 'r) run" where
  "mapWithConcurrency list mapper concurrency sched s0 =
     (case loop mapper concurrency sched 0 list
             \<lparr>shared = s0, executing = [], outcomes = [], trace = []\<rparr> of
        Inl st \<Rightarrow> (Rejected, drain sched st)
      | Inr st \<Rightarrow> (let st' = drain sched st in (promise_all (outcomes st') (length list), st')))"

text \<open>
  What a history says: the invocations started, those settled, each in the order of the
  events, and those in flight at its end.
\<close>

fun started :: "event list \<Rightarrow> nat list" where
  "started [] = []"
| "started (Started i # t) = i # started t"
| "started (Settled i # t) = started t"

fun settled_ids :: "event list \<Rightarrow> nat list" where
  "settled_ids [] = []"
| "settled_ids (Settled i # t) = i # settled_ids t"
| "settled_ids (Started i # t) = settled_ids t"

definition in_flight :: "event list \<Rightarrow> nat list" where
  "in_flight t = filter (\<lambda>i. Settled i \<notin> set t) (started t)"

text \<open>
  The invariant of a run at the head of iteration \<open>i\<close>: the invocations in flight
  are the members of \<^verbatim>\<open>executing\<close>, the invocations started so far are the first
  \<open>i\<close> in order, and no prefix of the history has more than \<open>n\<close> in flight.
\<close>

fun ev_id :: "event \<Rightarrow> nat" where
  "ev_id (Started i) = i"
| "ev_id (Settled i) = i"

definition bounded :: "nat \<Rightarrow> event list \<Rightarrow> bool" where
  "bounded n t = (\<forall>k\<le>length t. length (in_flight (take k t)) \<le> n)"

definition run_inv :: "nat \<Rightarrow> nat \<Rightarrow> ('s, 'r) run \<Rightarrow> bool" where
  "run_inv n i st =
     (in_flight (trace st) = map fst (executing st) \<and>
      (\<forall>e\<in>set (trace st). ev_id e < i) \<and>
      started (trace st) = [0..<i] \<and>
      bounded n (trace st))"

lemma started_append: "started (t @ u) = started t @ started u"
  by (induction t rule: started.induct) simp_all

lemma in_flight_Started:
  "Settled i \<notin> set t \<Longrightarrow> in_flight (t @ [Started i]) = in_flight t @ [i]"
  by (simp add: in_flight_def started_append)

lemma in_flight_Settled:
  "in_flight (t @ [Settled i]) = filter (\<lambda>j. j \<noteq> i) (in_flight t)"
  by (auto simp: in_flight_def started_append intro: filter_cong)

lemma bounded_snoc:
  "bounded n (t @ [e]) = (bounded n t \<and> length (in_flight (t @ [e])) \<le> n)"
proof -
  have "(\<forall>k\<le>Suc (length t). length (in_flight (take k (t @ [e]))) \<le> n) =
        ((\<forall>k\<le>length t. length (in_flight (take k (t @ [e]))) \<le> n) \<and>
         length (in_flight (take (Suc (length t)) (t @ [e]))) \<le> n)"
    by (auto simp: le_Suc_eq)
  then show ?thesis by (simp add: bounded_def)
qed

lemma bounded_last: "bounded n t \<Longrightarrow> length (in_flight t) \<le> n"
  by (auto simp: bounded_def dest: spec [of _ "length t"])

lemma run_inv_settle: "run_inv n i st \<Longrightarrow> run_inv n i (settle j st)"
proof -
  assume inv: "run_inv n i st"
  show ?thesis
  proof (cases "map_of (executing st) j")
    case None
    with inv show ?thesis by (simp add: settle_def)
  next
    case (Some k)
    then have "j \<in> set (map fst (executing st))"
      by (metis map_of_SomeD image_eqI fst_conv set_map)
    with inv have "j \<in> set (in_flight (trace st))"
      by (simp add: run_inv_def)
    then have "j \<in> set (started (trace st))"
      by (simp add: in_flight_def)
    with inv have j: "j < i" by (simp add: run_inv_def)
    from inv have "bounded n (trace st)" by (simp add: run_inv_def)
    then have "length (in_flight (trace st)) \<le> n" by (rule bounded_last)
    then have len: "length (filter (\<lambda>x. x \<noteq> j) (in_flight (trace st))) \<le> n"
      by (rule le_trans [OF length_filter_le])
    have "map fst (filter (\<lambda>p. fst p \<noteq> j) (executing st)) =
          filter (\<lambda>x. x \<noteq> j) (map fst (executing st))"
      by (simp add: filter_map comp_def)
    with inv Some j len show ?thesis
      by (simp add: settle_def run_inv_def in_flight_Settled bounded_snoc started_append
          split: prod.split)
  qed
qed

lemma run_inv_fold_settle: "run_inv n i st \<Longrightarrow> run_inv n i (fold settle ids st)"
  by (induction ids arbitrary: st) (simp_all add: run_inv_settle)

lemma run_inv_await_race: "run_inv n i st \<Longrightarrow> run_inv n i (fst (await_race sched st))"
  by (simp add: await_race_def Let_def run_inv_fold_settle)

lemma run_inv_drain: "run_inv n i st \<Longrightarrow> run_inv n i (drain sched st)"
proof (induction sched st rule: drain.induct)
  case (1 sched st)
  show ?case
  proof (cases "executing st = []")
    case True
    with "1.prems" show ?thesis by (simp add: drain_done)
  next
    case False
    with "1.prems" have "run_inv n i (drain sched (fst (await_race sched st)))"
      by (intro "1.IH") (simp_all add: run_inv_await_race)
    with False show ?thesis by (simp add: drain_step)
  qed
qed

lemma executing_drain: "executing (drain sched st) = []"
proof (induction sched st rule: drain.induct)
  case (1 sched st)
  then show ?case
    by (cases "executing st = []") (simp_all add: drain_done drain_step)
qed

lemma run_inv_start:
  assumes "run_inv n i st" and "length (executing st) < n"
  shows "run_inv n (Suc i) (st\<lparr>executing := executing st @ [(i, k)], trace := trace st @ [Started i]\<rparr>)"
proof -
  from assms(1) have "Settled i \<notin> set (trace st)"
    by (auto simp: run_inv_def)
  with assms show ?thesis
    by (auto simp: run_inv_def in_flight_Started bounded_snoc less_Suc_eq started_append)
qed

lemma run_inv_loop:
  assumes "run_inv n i st" and "length (executing st) < n"
  shows "case loop mapper n sched i xs st of
           Inr st' \<Rightarrow> run_inv n (i + length xs) st'
         | Inl st' \<Rightarrow> (\<exists>j. run_inv n j st')"
  using assms
proof (induction xs arbitrary: i st)
  case Nil
  then show ?case by simp
next
  case (Cons x xs)
  let ?st1 = "st\<lparr>executing := executing st @ [(i, mapper i x)], trace := trace st @ [Started i]\<rparr>"
  have inv1: "run_inv n (Suc i) ?st1"
    using Cons.prems by (rule run_inv_start)
  show ?case
  proof (cases "n \<le> length (executing ?st1)")
    case True
    obtain st2 ok where ar: "await_race sched ?st1 = (st2, ok)"
      by (cases "await_race sched ?st1")
    have inv2: "run_inv n (Suc i) st2"
      using run_inv_await_race [OF inv1, of sched] ar by simp
    have "length (executing st2) < length (executing ?st1)"
      using await_race_length_less [of ?st1 sched] ar by simp
    with Cons.prems(2) have len2: "length (executing st2) < n" by simp
    show ?thesis
    proof (cases ok)
      case True
      with Cons.IH [OF inv2 len2] ar \<open>n \<le> length (executing ?st1)\<close>
      show ?thesis by (simp add: Let_def split: sum.splits)
    next
      case False
      with inv2 ar \<open>n \<le> length (executing ?st1)\<close>
      show ?thesis by (auto simp: Let_def)
    qed
  next
    case False
    then have "length (executing ?st1) < n" by simp
    with Cons.IH [OF inv1] False show ?thesis by (simp add: Let_def split: sum.splits)
  qed
qed

lemma run_inv_init: "run_inv n 0 \<lparr>shared = s0, executing = [], outcomes = [], trace = []\<rparr>"
  by (simp add: run_inv_def in_flight_def bounded_def)

lemma mapWithConcurrency_bounded:
  assumes "1 \<le> n"
  shows "bounded n (trace (snd (mapWithConcurrency list mapper n sched s0)))"
proof -
  let ?init = "\<lparr>shared = s0, executing = [], outcomes = [], trace = []\<rparr>"
  have "length (executing ?init) < n"
    using assms by simp
  from run_inv_loop [OF run_inv_init this, where mapper = mapper and sched = sched and xs = list]
  have "\<exists>st' j. (loop mapper n sched 0 list ?init = Inl st' \<or>
      loop mapper n sched 0 list ?init = Inr st') \<and> run_inv n j st'"
    by (cases "loop mapper n sched 0 list ?init") auto
  then obtain st' j where res: "loop mapper n sched 0 list ?init = Inl st' \<or>
      loop mapper n sched 0 list ?init = Inr st'" and "run_inv n j st'"
    by blast
  then have "run_inv n j (drain sched st')"
    by (simp add: run_inv_drain)
  then have "bounded n (trace (drain sched st'))"
    by (simp add: run_inv_def)
  with res show ?thesis
    by (auto simp: mapWithConcurrency_def Let_def)
qed

text \<open>
  Where the members of \<^verbatim>\<open>executing\<close> and the settled promises come from: each is an
  invocation of the mapper on the item at its position, and every invocation started so
  far is pending or settled. The shared state is what the continuations of the settled
  invocations have made of the initial one, run in the order in which they settled.
\<close>

definition origin_inv ::
  "(nat \<Rightarrow> 'a \<Rightarrow> ('s, 'r) continuation) \<Rightarrow> 'a list \<Rightarrow> nat \<Rightarrow> ('s, 'r) run \<Rightarrow> bool" where
  "origin_inv mapper list i st =
     ((\<forall>p\<in>set (executing st). fst p < length list \<and> snd p = mapper (fst p) (list ! fst p)) \<and>
      (\<forall>p\<in>set (outcomes st). fst p < length list \<and> (\<exists>s. snd (mapper (fst p) (list ! fst p) s) = snd p)) \<and>
      fst ` set (outcomes st) \<union> fst ` set (executing st) = {0..<i})"

definition effects_inv ::
  "(nat \<Rightarrow> 'a \<Rightarrow> ('s, 'r) continuation) \<Rightarrow> 'a list \<Rightarrow> 's \<Rightarrow> ('s, 'r) run \<Rightarrow> bool" where
  "effects_inv mapper list s0 st =
     (shared st = fold (\<lambda>j s. fst (mapper j (list ! j) s)) (map fst (outcomes st)) s0 \<and>
      distinct (map fst (outcomes st)) \<and>
      fst ` set (outcomes st) \<inter> fst ` set (executing st) = {})"

definition never_rejects :: "(nat \<Rightarrow> 'a \<Rightarrow> ('s, 'r) continuation) \<Rightarrow> 'a list \<Rightarrow> bool" where
  "never_rejects mapper list = (\<forall>j<length list. \<forall>s. snd (mapper j (list ! j) s) \<noteq> Rejected)"

text \<open>The settled events of the history are the settled promises, in the same order.\<close>

definition history_inv :: "('s, 'r) run \<Rightarrow> bool" where
  "history_inv st = (settled_ids (trace st) = map fst (outcomes st))"

lemma origin_inv_settle:
  assumes "origin_inv mapper list i st"
  shows "origin_inv mapper list i (settle j st)"
proof (cases "map_of (executing st) j")
  case None
  with assms show ?thesis by (simp add: settle_def)
next
  case (Some k)
  then have mem: "(j, k) \<in> set (executing st)" by (rule map_of_SomeD)
  with assms have j: "j < length list" and k: "k = mapper j (list ! j)"
    by (auto simp: origin_inv_def)
  obtain s' r where kr: "k (shared st) = (s', r)" by (cases "k (shared st)")
  then have r: "\<exists>s. snd (mapper j (list ! j) s) = r"
    using k by (metis snd_conv)
  have ids: "fst ` set (filter (\<lambda>p. fst p \<noteq> j) (executing st)) = fst ` set (executing st) - {j}"
    by auto
  have "j \<in> fst ` set (executing st)" using mem by force
  with assms have un: "insert j (fst ` set (outcomes st)) \<union> (fst ` set (executing st) - {j}) = {0..<i}"
    by (auto simp: origin_inv_def)
  have e: "executing (settle j st) = filter (\<lambda>p. fst p \<noteq> j) (executing st)"
    and o: "outcomes (settle j st) = outcomes st @ [(j, r)]"
    using Some kr by (simp_all add: settle_def)
  from assms have ex: "\<forall>p\<in>set (filter (\<lambda>p. fst p \<noteq> j) (executing st)).
      fst p < length list \<and> snd p = mapper (fst p) (list ! fst p)"
    by (simp add: origin_inv_def)
  from assms j r have out: "\<forall>p\<in>set (outcomes st @ [(j, r)]).
      fst p < length list \<and> (\<exists>s. snd (mapper (fst p) (list ! fst p) s) = snd p)"
    by (auto simp: origin_inv_def)
  from un ids have un': "fst ` set (outcomes st @ [(j, r)]) \<union>
      fst ` set (filter (\<lambda>p. fst p \<noteq> j) (executing st)) = {0..<i}"
    by simp
  show ?thesis
    unfolding origin_inv_def e o using ex out un' by blast
qed

lemma origin_inv_fold_settle:
  "origin_inv mapper list i st \<Longrightarrow> origin_inv mapper list i (fold settle ids st)"
  by (induction ids arbitrary: st) (simp_all add: origin_inv_settle)

lemma origin_inv_await_race:
  "origin_inv mapper list i st \<Longrightarrow> origin_inv mapper list i (fst (await_race sched st))"
  by (simp add: await_race_def Let_def origin_inv_fold_settle)

lemma origin_inv_drain:
  "origin_inv mapper list i st \<Longrightarrow> origin_inv mapper list i (drain sched st)"
proof (induction sched st rule: drain.induct)
  case (1 sched st)
  show ?case
  proof (cases "executing st = []")
    case True
    with "1.prems" show ?thesis by (simp add: drain_done)
  next
    case False
    with "1.prems" have "origin_inv mapper list i (drain sched (fst (await_race sched st)))"
      by (intro "1.IH") (simp_all add: origin_inv_await_race)
    with False show ?thesis by (simp add: drain_step)
  qed
qed

lemma origin_inv_not_rejected:
  assumes "origin_inv mapper list i st" and "never_rejects mapper list"
  shows "map_of (outcomes st) j \<noteq> Some Rejected"
proof
  assume "map_of (outcomes st) j = Some Rejected"
  then have mem: "(j, Rejected) \<in> set (outcomes st)" by (rule map_of_SomeD)
  from assms(1) have "\<forall>p\<in>set (outcomes st).
      fst p < length list \<and> (\<exists>s. snd (mapper (fst p) (list ! fst p) s) = snd p)"
    by (simp add: origin_inv_def)
  from bspec [OF this mem]
  have "j < length list" and "\<exists>s. snd (mapper j (list ! j) s) = Rejected"
    by simp_all
  with assms(2) show False by (auto simp: never_rejects_def)
qed

lemma await_race_resumes:
  assumes "origin_inv mapper list i st" and "never_rejects mapper list"
  shows "snd (await_race sched st)"
  using origin_inv_not_rejected [OF origin_inv_fold_settle [OF assms(1)] assms(2)]
  by (simp add: await_race_def Let_def)

lemma origin_inv_start:
  assumes "origin_inv mapper list i st" and "drop i list = x # xs"
  shows "origin_inv mapper list (Suc i)
           (st\<lparr>executing := executing st @ [(i, mapper i x)], trace := trace st @ [Started i]\<rparr>)"
proof -
  from assms(2) have x: "list ! i = x" by (rule nth_via_drop)
  from assms(2) have i: "i < length list"
    by (metis drop_all list.distinct(1) not_le)
  from assms(1) x i show ?thesis
    by (auto simp: origin_inv_def less_Suc_eq)
qed

lemma origin_inv_loop:
  assumes "origin_inv mapper list i st" and "drop i list = xs" and "never_rejects mapper list"
  shows "\<exists>st'. loop mapper n sched i xs st = Inr st' \<and> origin_inv mapper list (length list) st'"
  using assms(1,2)
proof (induction xs arbitrary: i st)
  case Nil
  then have "length list \<le> i" by simp
  moreover have "i \<le> length list"
  proof (rule ccontr)
    assume "\<not> i \<le> length list"
    then have "length list \<in> {0..<i}" by simp
    also from Nil.prems(1)
    have "{0..<i} = fst ` set (outcomes st) \<union> fst ` set (executing st)"
      by (simp add: origin_inv_def)
    finally have "(\<exists>p\<in>set (outcomes st). fst p = length list) \<or>
        (\<exists>p\<in>set (executing st). fst p = length list)" by force
    moreover from Nil.prems(1) have "\<forall>p\<in>set (outcomes st). fst p < length list"
      and "\<forall>p\<in>set (executing st). fst p < length list"
      by (simp_all add: origin_inv_def)
    ultimately show False by fastforce
  qed
  ultimately show ?case using Nil.prems(1) by auto
next
  case (Cons x xs)
  let ?st1 = "st\<lparr>executing := executing st @ [(i, mapper i x)], trace := trace st @ [Started i]\<rparr>"
  from Cons.prems have inv1: "origin_inv mapper list (Suc i) ?st1"
    by (intro origin_inv_start) simp_all
  from Cons.prems(2) have rest: "drop (Suc i) list = xs"
    by (metis drop_Suc tl_drop list.sel(3))
  show ?case
  proof (cases "n \<le> length (executing ?st1)")
    case True
    obtain st2 ok where ar: "await_race sched ?st1 = (st2, ok)"
      by (cases "await_race sched ?st1")
    have ok: ok
      using await_race_resumes [OF inv1 assms(3), of sched] ar by simp
    have inv2: "origin_inv mapper list (Suc i) st2"
      using origin_inv_await_race [OF inv1, of sched] ar by simp
    from Cons.IH [OF inv2 rest] ar ok True show ?thesis
      by (simp add: Let_def)
  next
    case False
    with Cons.IH [OF inv1 rest] show ?thesis
      by (simp add: Let_def)
  qed
qed

lemma origin_inv_init:
  "origin_inv mapper list 0 \<lparr>shared = s0, executing = [], outcomes = [], trace = []\<rparr>"
  by (simp add: origin_inv_def)

lemma collect_Some:
  assumes "\<forall>i\<in>set is. \<exists>v. map_of outs i = Some (Fulfilled v)"
  shows "\<exists>vs. collect outs is = Some vs \<and> length vs = length is \<and>
           (\<forall>m<length is. map_of outs (is ! m) = Some (Fulfilled (vs ! m)))"
  using assms
proof (induction "is")
  case Nil
  show ?case by simp
next
  case (Cons i "is")
  from Cons.prems obtain v where v: "map_of outs i = Some (Fulfilled v)" by auto
  from Cons.IH Cons.prems obtain vs where vs: "collect outs is = Some vs"
    "length vs = length is" "\<forall>m<length is. map_of outs (is ! m) = Some (Fulfilled (vs ! m))"
    by auto
  have "\<forall>m<length (i # is). map_of outs ((i # is) ! m) = Some (Fulfilled ((v # vs) ! m))"
    using v vs(3) by (auto simp: nth_Cons split: nat.split)
  with v vs(1,2) show ?case by simp
qed

lemma effects_inv_settle:
  assumes "origin_inv mapper list i st" and "effects_inv mapper list s0 st"
  shows "effects_inv mapper list s0 (settle j st)"
proof (cases "map_of (executing st) j")
  case None
  with assms show ?thesis by (simp add: settle_def)
next
  case (Some k)
  then have mem: "(j, k) \<in> set (executing st)" by (rule map_of_SomeD)
  with assms(1) have k: "k = mapper j (list ! j)"
    by (auto simp: origin_inv_def)
  obtain s' r where kr: "k (shared st) = (s', r)" by (cases "k (shared st)")
  with k have s': "s' = fst (mapper j (list ! j) (shared st))" by simp
  have e: "executing (settle j st) = filter (\<lambda>p. fst p \<noteq> j) (executing st)"
    and o: "outcomes (settle j st) = outcomes st @ [(j, r)]"
    and sh: "shared (settle j st) = s'"
    using Some kr by (simp_all add: settle_def)
  have jex: "j \<in> fst ` set (executing st)" using mem by force
  with assms(2) have jout: "j \<notin> fst ` set (outcomes st)"
    by (auto simp: effects_inv_def)
  have "fst ` set (outcomes st @ [(j, r)]) \<inter> fst ` set (filter (\<lambda>p. fst p \<noteq> j) (executing st)) = {}"
    using assms(2) by (auto simp: effects_inv_def)
  moreover have "distinct (map fst (outcomes st @ [(j, r)]))"
    using assms(2) jout by (simp add: effects_inv_def)
  moreover have "s' = fold (\<lambda>j s. fst (mapper j (list ! j) s)) (map fst (outcomes st @ [(j, r)])) s0"
    using assms(2) s' by (simp add: effects_inv_def)
  ultimately show ?thesis
    unfolding effects_inv_def e o sh by blast
qed

lemma invs_fold_settle:
  "origin_inv mapper list i st \<Longrightarrow> effects_inv mapper list s0 st \<Longrightarrow>
   effects_inv mapper list s0 (fold settle ids st)"
  by (induction ids arbitrary: st) (simp_all add: origin_inv_settle effects_inv_settle)

lemma effects_inv_await_race:
  "origin_inv mapper list i st \<Longrightarrow> effects_inv mapper list s0 st \<Longrightarrow>
   effects_inv mapper list s0 (fst (await_race sched st))"
  by (simp add: await_race_def Let_def invs_fold_settle)

lemma effects_inv_drain:
  "origin_inv mapper list i st \<Longrightarrow> effects_inv mapper list s0 st \<Longrightarrow>
   effects_inv mapper list s0 (drain sched st)"
proof (induction sched st rule: drain.induct)
  case (1 sched st)
  show ?case
  proof (cases "executing st = []")
    case True
    with "1.prems" show ?thesis by (simp add: drain_done)
  next
    case False
    with "1.prems" have "effects_inv mapper list s0 (drain sched (fst (await_race sched st)))"
      by (intro "1.IH") (simp_all add: origin_inv_await_race effects_inv_await_race)
    with False show ?thesis by (simp add: drain_step)
  qed
qed

lemma effects_inv_start:
  assumes "origin_inv mapper list i st" and "effects_inv mapper list s0 st"
  shows "effects_inv mapper list s0
           (st\<lparr>executing := executing st @ [(i, k)], trace := trace st @ [Started i]\<rparr>)"
proof -
  from assms(1) have "fst ` set (outcomes st) \<subseteq> {0..<i}"
    by (auto simp: origin_inv_def)
  then have "i \<notin> fst ` set (outcomes st)" by auto
  with assms(2) show ?thesis
    by (auto simp: effects_inv_def)
qed

lemma effects_inv_loop:
  assumes "origin_inv mapper list i st" and "effects_inv mapper list s0 st"
    and "drop i list = xs" and "never_rejects mapper list"
  shows "\<exists>st'. loop mapper n sched i xs st = Inr st' \<and> effects_inv mapper list s0 st'"
  using assms(1,2,3)
proof (induction xs arbitrary: i st)
  case Nil
  then show ?case by simp
next
  case (Cons x xs)
  let ?st1 = "st\<lparr>executing := executing st @ [(i, mapper i x)], trace := trace st @ [Started i]\<rparr>"
  from Cons.prems have inv1: "origin_inv mapper list (Suc i) ?st1"
    by (intro origin_inv_start) simp_all
  from Cons.prems have eff1: "effects_inv mapper list s0 ?st1"
    by (intro effects_inv_start) simp_all
  from Cons.prems(3) have rest: "drop (Suc i) list = xs"
    by (metis drop_Suc tl_drop list.sel(3))
  show ?case
  proof (cases "n \<le> length (executing ?st1)")
    case True
    obtain st2 ok where ar: "await_race sched ?st1 = (st2, ok)"
      by (cases "await_race sched ?st1")
    have ok: ok
      using await_race_resumes [OF inv1 assms(4), of sched] ar by simp
    have inv2: "origin_inv mapper list (Suc i) st2"
      using origin_inv_await_race [OF inv1, of sched] ar by simp
    have eff2: "effects_inv mapper list s0 st2"
      using effects_inv_await_race [OF inv1 eff1, of sched] ar by simp
    from Cons.IH [OF inv2 eff2 rest] ar ok True show ?thesis
      by (simp add: Let_def)
  next
    case False
    with Cons.IH [OF inv1 eff1 rest] show ?thesis
      by (simp add: Let_def)
  qed
qed

lemma effects_inv_init:
  "effects_inv mapper list s0 \<lparr>shared = s0, executing = [], outcomes = [], trace = []\<rparr>"
  by (simp add: effects_inv_def)

lemma mapWithConcurrency_started:
  assumes "1 \<le> n" and "never_rejects mapper list"
  shows "started (trace (snd (mapWithConcurrency list mapper n sched s0))) = [0..<length list]"
proof -
  let ?init = "\<lparr>shared = s0, executing = [], outcomes = [], trace = []\<rparr>"
  have "\<exists>st'. loop mapper n sched 0 list ?init = Inr st' \<and>
      origin_inv mapper list (length list) st'"
    by (rule origin_inv_loop [OF origin_inv_init _ assms(2)]) simp
  then obtain st' where st': "loop mapper n sched 0 list ?init = Inr st'"
    by auto
  have "length (executing ?init) < n"
    using assms(1) by simp
  from run_inv_loop [OF run_inv_init this, where mapper = mapper and sched = sched and xs = list]
  have "run_inv n (length list) st'"
    using st' by simp
  then have "run_inv n (length list) (drain sched st')"
    by (rule run_inv_drain)
  with st' show ?thesis
    by (simp add: mapWithConcurrency_def Let_def run_inv_def)
qed

lemma mapWithConcurrency_fulfilled:
  assumes "never_rejects mapper list"
  shows "\<exists>rs. fst (mapWithConcurrency list mapper n sched s0) = Fulfilled rs \<and>
           length rs = length list \<and>
           (\<forall>i<length list. \<exists>s. snd (mapper i (list ! i) s) = Fulfilled (rs ! i))"
proof -
  let ?init = "\<lparr>shared = s0, executing = [], outcomes = [], trace = []\<rparr>"
  have "\<exists>st'. loop mapper n sched 0 list ?init = Inr st' \<and>
      origin_inv mapper list (length list) st'"
    by (rule origin_inv_loop [OF origin_inv_init _ assms]) simp
  then obtain st' where st': "loop mapper n sched 0 list ?init = Inr st'"
    and "origin_inv mapper list (length list) st'"
    by auto
  then have inv: "origin_inv mapper list (length list) (drain sched st')"
    by (simp add: origin_inv_drain)
  let ?outs = "outcomes (drain sched st')"
  from inv have dom: "fst ` set ?outs = {0..<length list}"
    by (simp add: origin_inv_def executing_drain)
  from inv have prov: "\<forall>p\<in>set ?outs. fst p < length list \<and>
      (\<exists>s. snd (mapper (fst p) (list ! fst p) s) = snd p)"
    by (simp add: origin_inv_def)
  have ful: "\<exists>v. map_of ?outs i = Some (Fulfilled v)" if "i < length list" for i
  proof -
    from that dom have "i \<in> fst ` set ?outs" by simp
    then obtain r where r: "map_of ?outs i = Some r"
      by (metis map_of_eq_None_iff not_Some_eq)
    with origin_inv_not_rejected [OF inv assms, of i] show ?thesis
      by (cases r) auto
  qed
  then have "\<forall>i\<in>set [0..<length list]. \<exists>v. map_of ?outs i = Some (Fulfilled v)"
    by simp
  from collect_Some [OF this] obtain vs where vs: "collect ?outs [0..<length list] = Some vs"
    "length vs = length list"
    "\<forall>m<length list. map_of ?outs m = Some (Fulfilled (vs ! m))"
    by auto
  have "\<exists>s. snd (mapper i (list ! i) s) = Fulfilled (vs ! i)" if "i < length list" for i
  proof -
    from vs(3) that have "(i, Fulfilled (vs ! i)) \<in> set ?outs"
      by (simp add: map_of_SomeD)
    from bspec [OF prov this] show ?thesis by simp
  qed
  with vs(1,2) st' show ?thesis
    by (simp add: mapWithConcurrency_def Let_def promise_all_def)
qed

lemma mapWithConcurrency_shared:
  assumes "never_rejects mapper list"
  shows "\<exists>order. set order = {0..<length list} \<and> distinct order \<and>
           shared (snd (mapWithConcurrency list mapper n sched s0)) =
             fold (\<lambda>j s. fst (mapper j (list ! j) s)) order s0"
proof -
  let ?init = "\<lparr>shared = s0, executing = [], outcomes = [], trace = []\<rparr>"
  have "\<exists>st'. loop mapper n sched 0 list ?init = Inr st' \<and>
      origin_inv mapper list (length list) st'"
    by (rule origin_inv_loop [OF origin_inv_init _ assms]) simp
  then obtain st' where st': "loop mapper n sched 0 list ?init = Inr st'"
    and o: "origin_inv mapper list (length list) st'"
    by auto
  have "\<exists>st'. loop mapper n sched 0 list ?init = Inr st' \<and> effects_inv mapper list s0 st'"
    by (rule effects_inv_loop [OF origin_inv_init effects_inv_init _ assms]) simp
  with st' have e: "effects_inv mapper list s0 st'" by simp
  let ?fin = "drain sched st'"
  from o have "origin_inv mapper list (length list) ?fin" by (rule origin_inv_drain)
  then have "set (map fst (outcomes ?fin)) = {0..<length list}"
    by (simp add: origin_inv_def executing_drain)
  moreover from o e have "effects_inv mapper list s0 ?fin" by (rule effects_inv_drain)
  then have "distinct (map fst (outcomes ?fin))"
    and "shared ?fin = fold (\<lambda>j s. fst (mapper j (list ! j) s)) (map fst (outcomes ?fin)) s0"
    by (simp_all add: effects_inv_def)
  ultimately show ?thesis
    using st' by (intro exI [of _ "map fst (outcomes ?fin)"])
      (simp add: mapWithConcurrency_def Let_def)
qed

lemma settled_ids_append: "settled_ids (t @ u) = settled_ids t @ settled_ids u"
  by (induction t rule: settled_ids.induct) simp_all

lemma history_inv_settle: "history_inv st \<Longrightarrow> history_inv (settle j st)"
  by (simp add: history_inv_def settle_def settled_ids_append split: option.split prod.split)

lemma history_inv_fold_settle: "history_inv st \<Longrightarrow> history_inv (fold settle ids st)"
  by (induction ids arbitrary: st) (simp_all add: history_inv_settle)

lemma history_inv_await_race: "history_inv st \<Longrightarrow> history_inv (fst (await_race sched st))"
  by (simp add: await_race_def Let_def history_inv_fold_settle)

lemma history_inv_drain: "history_inv st \<Longrightarrow> history_inv (drain sched st)"
proof (induction sched st rule: drain.induct)
  case (1 sched st)
  show ?case
  proof (cases "executing st = []")
    case True
    with "1.prems" show ?thesis by (simp add: drain_done)
  next
    case False
    with "1.prems" have "history_inv (drain sched (fst (await_race sched st)))"
      by (intro "1.IH") (simp_all add: history_inv_await_race)
    with False show ?thesis by (simp add: drain_step)
  qed
qed

lemma history_inv_loop:
  assumes "history_inv st"
  shows "case loop mapper n sched i xs st of Inr st' \<Rightarrow> history_inv st' | Inl st' \<Rightarrow> history_inv st'"
  using assms
proof (induction xs arbitrary: i st)
  case Nil
  then show ?case by simp
next
  case (Cons x xs)
  let ?st1 = "st\<lparr>executing := executing st @ [(i, mapper i x)], trace := trace st @ [Started i]\<rparr>"
  from Cons.prems have inv1: "history_inv ?st1"
    by (simp add: history_inv_def settled_ids_append)
  show ?case
  proof (cases "n \<le> length (executing ?st1)")
    case True
    obtain st2 ok where ar: "await_race sched ?st1 = (st2, ok)"
      by (cases "await_race sched ?st1")
    have inv2: "history_inv st2"
      using history_inv_await_race [OF inv1, of sched] ar by simp
    show ?thesis
    proof (cases ok)
      case True
      with Cons.IH [OF inv2] ar \<open>n \<le> length (executing ?st1)\<close>
      show ?thesis by (simp add: Let_def split: sum.splits)
    next
      case False
      with inv2 ar \<open>n \<le> length (executing ?st1)\<close>
      show ?thesis by (simp add: Let_def)
    qed
  next
    case False
    with Cons.IH [OF inv1] show ?thesis by (simp add: Let_def split: sum.splits)
  qed
qed

lemma mapWithConcurrency_history:
  "settled_ids (trace (snd (mapWithConcurrency list mapper n sched s0))) =
     map fst (outcomes (snd (mapWithConcurrency list mapper n sched s0)))"
proof -
  let ?init = "\<lparr>shared = s0, executing = [], outcomes = [], trace = []\<rparr>"
  have "history_inv ?init" by (simp add: history_inv_def)
  from history_inv_loop [OF this, of mapper n sched 0 list]
  show ?thesis
    by (cases "loop mapper n sched 0 list ?init")
      (simp_all add: mapWithConcurrency_def Let_def history_inv_drain [unfolded history_inv_def]
        history_inv_def)
qed


lemma mapWithConcurrency_settled:
  assumes "never_rejects mapper list"
  shows "set (settled_ids (trace (snd (mapWithConcurrency list mapper n sched s0)))) = {0..<length list} \<and>
         distinct (settled_ids (trace (snd (mapWithConcurrency list mapper n sched s0)))) \<and>
         shared (snd (mapWithConcurrency list mapper n sched s0)) =
           fold (\<lambda>j s. fst (mapper j (list ! j) s))
             (settled_ids (trace (snd (mapWithConcurrency list mapper n sched s0)))) s0"
proof -
  let ?init = "\<lparr>shared = s0, executing = [], outcomes = [], trace = []\<rparr>"
  have "\<exists>st'. loop mapper n sched 0 list ?init = Inr st' \<and>
      origin_inv mapper list (length list) st'"
    by (rule origin_inv_loop [OF origin_inv_init _ assms]) simp
  then obtain st' where st': "loop mapper n sched 0 list ?init = Inr st'"
    and o: "origin_inv mapper list (length list) st'"
    by auto
  have "\<exists>st'. loop mapper n sched 0 list ?init = Inr st' \<and> effects_inv mapper list s0 st'"
    by (rule effects_inv_loop [OF origin_inv_init effects_inv_init _ assms]) simp
  with st' have e: "effects_inv mapper list s0 st'" by simp
  let ?fin = "drain sched st'"
  have fin: "snd (mapWithConcurrency list mapper n sched s0) = ?fin"
    using st' by (simp add: mapWithConcurrency_def Let_def)
  from o have "origin_inv mapper list (length list) ?fin" by (rule origin_inv_drain)
  then have "set (map fst (outcomes ?fin)) = {0..<length list}"
    by (simp add: origin_inv_def executing_drain)
  moreover from o e have "effects_inv mapper list s0 ?fin" by (rule effects_inv_drain)
  then have "distinct (map fst (outcomes ?fin))"
    and "shared ?fin = fold (\<lambda>j s. fst (mapper j (list ! j) s)) (map fst (outcomes ?fin)) s0"
    by (simp_all add: effects_inv_def)
  ultimately show ?thesis
    unfolding mapWithConcurrency_history unfolding fin by simp
qed

section \<open>JavaScript strings and numbers\<close>

text \<open>
  Strings are lists of characters. The functions that look at single characters
  (\<^verbatim>\<open>toLowerCase\<close>, the classes \<^verbatim>\<open>\s\<close> and \<^verbatim>\<open>.\<close> of regular expressions,
  \<^verbatim>\<open>encodeURIComponent\<close>) are modelled on ASCII, the alphabet of the site's folder and
  file names; a character outside ASCII is left as it is by \<open>toLowerCase\<close>, is neither
  white space nor a line terminator, and is percent-encoded byte by byte.
\<close>

definition endsWith :: "string \<Rightarrow> string \<Rightarrow> bool" where
  "endsWith s sfx = (length sfx \<le> length s \<and> drop (length s - length sfx) s = sfx)"

definition startsWith :: "string \<Rightarrow> string \<Rightarrow> bool" where
  "startsWith s pfx = (take (length pfx) s = pfx)"

text \<open>\<^verbatim>\<open>a || b\<close> on strings: the empty string is falsy.\<close>

definition or_else :: "string \<Rightarrow> string \<Rightarrow> string" where
  "or_else a b = (if a = [] then b else a)"

text \<open>\<^verbatim>\<open>.filter(Boolean)\<close> on attribute values: \<^verbatim>\<open>null\<close> and the empty string go.\<close>

definition filter_Boolean :: "string option list \<Rightarrow> string list" where
  "filter_Boolean xs = concat (map (\<lambda>x. case x of None \<Rightarrow> [] | Some s \<Rightarrow> if s = [] then [] else [s]) xs)"

definition is_line_terminator :: "char \<Rightarrow> bool" where
  "is_line_terminator c = (c = CHR 0x0A \<or> c = CHR 0x0D)"

text \<open>
  \<^verbatim>\<open>s.replace(/^.*\//, '')\<close>: the greedy \<^verbatim>\<open>.*\<close> stays on the first line, so what goes
  is the text up to the last slash of the first line.
\<close>

definition basename :: "string \<Rightarrow> string" where
  "basename s =
     (let line = takeWhile (\<lambda>c. \<not> is_line_terminator c) s
      in if CHR ''/'' \<in> set line
         then drop (length line - length (takeWhile (\<lambda>c. c \<noteq> CHR ''/'') (rev line))) s
         else s)"

text \<open>\<^verbatim>\<open>h.replace(/\//, '')\<close>: without the \<^verbatim>\<open>g\<close> flag only the first slash goes.\<close>

fun remove_first_slash :: "string \<Rightarrow> string" where
  "remove_first_slash [] = []"
| "remove_first_slash (c # cs) = (if c = CHR ''/'' then cs else c # remove_first_slash cs)"

text \<open>\<^verbatim>\<open>s.replace(/^\/\//, '')\<close>\<close>

definition strip_leading_slashes :: "string \<Rightarrow> string" where
  "strip_leading_slashes s = (if startsWith s ''//'' then drop 2 s else s)"

definition is_space :: "char \<Rightarrow> bool" where
  "is_space c = (c \<in> set [CHR '' '', CHR 0x09, CHR 0x0A, CHR 0x0B, CHR 0x0C, CHR 0x0D])"

text \<open>\<^verbatim>\<open>s.replace(/\s+/g, '_')\<close>: every maximal run of white space becomes one underscore.\<close>

function underscore_spaces :: "string \<Rightarrow> string" where
  "underscore_spaces [] = []"
| "underscore_spaces (c # cs) =
     (if is_space c then CHR ''_'' # underscore_spaces (dropWhile is_space cs)
      else c # underscore_spaces cs)"
  by pat_completeness auto
termination
  by (relation "measure length") (auto simp: less_Suc_eq_le length_dropWhile_le)

definition lower_char :: "char \<Rightarrow> char" where
  "lower_char c =
     (case map_of (zip ''ABCDEFGHIJKLMNOPQRSTUVWXYZ'' ''abcdefghijklmnopqrstuvwxyz'') c of
        Some l \<Rightarrow> l
      | None \<Rightarrow> c)"

definition toLowerCase :: "string \<Rightarrow> string" where
  "toLowerCase s = map lower_char s"

text \<open>The characters \<^verbatim>\<open>encodeURIComponent\<close> leaves alone.\<close>

definition unreserved :: "char \<Rightarrow> bool" where
  "unreserved c =
     (c \<in> set (''ABCDEFGHIJKLMNOPQRSTUVWXYZ'' @ ''abcdefghijklmnopqrstuvwxyz'' @
               ''0123456789'' @ ''-_.!~*'()''))"

definition hex_digit :: "nat \<Rightarrow> char" where
  "hex_digit n = ''0123456789ABCDEF'' ! (n mod 16)"

definition encodeURIComponent :: "string \<Rightarrow> string" where
  "encodeURIComponent s =
     concat (map (\<lambda>c. if unreserved c then [c]
                       else [CHR ''%'', hex_digit (of_char c div 16), hex_digit (of_char c)]) s)"

text \<open>
  The numbers of JavaScript are IEEE 754 doubles. A double is modelled by the rational
  it stands for, and an arithmetic operation by the exact operation followed by the
  rounding to the nearest double, ties to the even significand. \<open>binade x\<close> is the
  exponent \<open>e\<close> with \<open>2\<^sup>e \<le> x < 2\<^sup>e\<^sup>+\<^sup>1\<close>; a double of that binade is a multiple of
  \<open>2\<^sup>e\<^sup>-\<^sup>5\<^sup>2\<close>. The exponent is not bounded in the model: the quotient of a count of
  tasks by their number, and a hundred times it, are far from overflow and from the
  subnormal range.
\<close>

definition round_half_even :: "rat \<Rightarrow> int" where
  "round_half_even m =
     (let f = \<lfloor>m\<rfloor>; d = m - of_int f
      in if d < 1 / 2 then f else if 1 / 2 < d then f + 1 else if even f then f else f + 1)"

definition binade :: "rat \<Rightarrow> int" where
  "binade x =
     (case quotient_of x of
        (p, q) \<Rightarrow> let e = bitlen p - bitlen q in if 2 powi e \<le> x then e else e - 1)"

definition to_double :: "rat \<Rightarrow> rat" where
  "to_double x =
     (if x = 0 then 0
      else let a = \<bar>x\<bar>; u = 2 powi (binade a - 52)
           in sgn x * of_int (round_half_even (a / u)) * u)"

text \<open>
  \<^verbatim>\<open>Math.round\<close> gives the nearest integer, a half upwards.
\<close>

definition Math_round :: "rat \<Rightarrow> int" where
  "Math_round x = \<lfloor>x + 1 / 2\<rfloor>"

text \<open>
  \<^verbatim>\<open>Math.round((completed / total) * 100)\<close>: the division and the multiplication are
  each rounded to a double. The expression is only evaluated for a total of at least 1;
  the two counts are lengths of arrays, which are doubles themselves.
\<close>

definition percent :: "nat \<Rightarrow> nat \<Rightarrow> int" where
  "percent finished n_tasks =
     Math_round (to_double (to_double (of_nat finished / of_nat n_tasks) * 100))"

section \<open>Rounding to doubles is monotone\<close>

lemma round_half_even_of_int: "round_half_even (of_int n) = n"
  by (simp add: round_half_even_def)

lemma round_half_even_bounds:
  "\<lfloor>m\<rfloor> \<le> round_half_even m \<and> round_half_even m \<le> \<lfloor>m\<rfloor> + 1"
  by (simp add: round_half_even_def Let_def)

lemma round_half_even_mono:
  assumes "m \<le> m'"
  shows "round_half_even m \<le> round_half_even m'"
proof (cases "\<lfloor>m\<rfloor> = \<lfloor>m'\<rfloor>")
  case True
  with assms have "m - of_int \<lfloor>m\<rfloor> \<le> m' - of_int \<lfloor>m'\<rfloor>" by simp
  with True show ?thesis
    by (auto simp: round_half_even_def Let_def)
next
  case False
  with assms have "\<lfloor>m\<rfloor> < \<lfloor>m'\<rfloor>"
    using floor_mono [of m m'] by simp
  with round_half_even_bounds [of m] round_half_even_bounds [of m'] show ?thesis
    by simp
qed

lemma binade_bounds:
  assumes "0 < x"
  shows "2 powi binade x \<le> x \<and> x < 2 powi (binade x + 1)"
proof -
  obtain p q where pq: "quotient_of x = (p, q)" by (cases "quotient_of x")
  then have q: "0 < q" and x: "x = of_int p / of_int q"
    by (simp_all add: quotient_of_denom_pos quotient_of_div)
  with assms have p: "0 < p"
    by (simp add: zero_less_divide_iff)
  let ?e = "bitlen p - bitlen q"
  from bitlen_bounds [OF p] have p1: "2 ^ nat (bitlen p - 1) \<le> p" and p2: "p < 2 ^ nat (bitlen p)"
    by simp_all
  from bitlen_bounds [OF q] have q1: "2 ^ nat (bitlen q - 1) \<le> q" and q2: "q < 2 ^ nat (bitlen q)"
    by simp_all
  from p q have bp: "1 \<le> bitlen p" and bq: "1 \<le> bitlen q"
    using bitlen_eq_zero_iff [of p] bitlen_eq_zero_iff [of q] bitlen_nonneg [of p] bitlen_nonneg [of q]
    by linarith+
  have P1: "(2::rat) powi (bitlen p - 1) \<le> of_int p"
  proof -
    from p1 have "(of_int (2 ^ nat (bitlen p - 1)) :: rat) \<le> of_int p"
      by (simp only: of_int_le_iff)
    with bp show ?thesis by (simp add: power_int_def)
  qed
  have P2: "of_int p < (2::rat) powi bitlen p"
  proof -
    from p2 have "(of_int p :: rat) < of_int (2 ^ nat (bitlen p))"
      by (simp only: of_int_less_iff)
    with bp show ?thesis by (simp add: power_int_def)
  qed
  have Q1: "(2::rat) powi (bitlen q - 1) \<le> of_int q"
  proof -
    from q1 have "(of_int (2 ^ nat (bitlen q - 1)) :: rat) \<le> of_int q"
      by (simp only: of_int_le_iff)
    with bq show ?thesis by (simp add: power_int_def)
  qed
  have Q2: "of_int q < (2::rat) powi bitlen q"
  proof -
    from q2 have "(of_int q :: rat) < of_int (2 ^ nat (bitlen q))"
      by (simp only: of_int_less_iff)
    with bq show ?thesis by (simp add: power_int_def)
  qed
  have pos: "0 < (2::rat) powi n" for n by (simp add: zero_less_power_int)
  have "of_int p / of_int q < (2::rat) powi bitlen p / 2 powi (bitlen q - 1)"
  proof (rule frac_less)
    show "0 \<le> (of_int p :: rat)" using p by simp
    show "(of_int p :: rat) < 2 powi bitlen p" by (rule P2)
    show "0 < (2::rat) powi (bitlen q - 1)" by (rule pos)
    show "(2::rat) powi (bitlen q - 1) \<le> of_int q" by (rule Q1)
  qed
  also have "\<dots> = 2 powi (?e + 1)"
    by (simp add: power_int_diff [symmetric] algebra_simps)
  finally have up: "x < 2 powi (?e + 1)" by (simp add: x)
  have "(2::rat) powi (bitlen p - 1) / 2 powi bitlen q \<le> of_int p / of_int q"
  proof (rule frac_le)
    show "0 \<le> (of_int p :: rat)" using p by simp
    show "2 powi (bitlen p - 1) \<le> (of_int p :: rat)" by (rule P1)
    show "0 < (of_int q :: rat)" using q by simp
    show "(of_int q :: rat) \<le> 2 powi bitlen q" using Q2 by simp
  qed
  moreover have "(2::rat) powi (bitlen p - 1) / 2 powi bitlen q = 2 powi (?e - 1)"
    by (simp add: power_int_diff [symmetric] algebra_simps)
  ultimately have lo: "2 powi (?e - 1) \<le> x" by (simp add: x)
  show ?thesis
    using up lo pq by (auto simp: binade_def Let_def)
qed


lemma binade_mono:
  assumes "0 < x" and "x \<le> y"
  shows "binade x \<le> binade y"
proof (rule ccontr)
  assume "\<not> binade x \<le> binade y"
  then have "binade y + 1 \<le> binade x" by simp
  then have "(2::rat) powi (binade y + 1) \<le> 2 powi binade x"
    by (intro power_int_increasing) simp_all
  moreover from assms have "0 < y" by simp
  ultimately show False
    using binade_bounds [OF assms(1)] binade_bounds [OF \<open>0 < y\<close>] assms(2) by simp
qed

lemma to_double_pos:
  assumes "0 < x"
  shows "to_double x = of_int (round_half_even (x / 2 powi (binade x - 52))) * 2 powi (binade x - 52)"
  using assms by (simp add: to_double_def Let_def)

lemma to_double_range:
  assumes "0 < x"
  shows "2 powi binade x \<le> to_double x \<and> to_double x \<le> 2 powi (binade x + 1)"
proof -
  let ?u = "(2::rat) powi (binade x - 52)"
  have u: "0 < ?u" by (simp add: zero_less_power_int)
  have lo: "(2::rat) powi binade x = of_int (2 ^ 52) * ?u"
    and hi: "(2::rat) powi (binade x + 1) = of_int (2 ^ 53) * ?u"
    by (simp_all add: power_int_diff power_int_add)
  from binade_bounds [OF assms] have "of_int (2 ^ 52) * ?u \<le> x" and "x \<le> of_int (2 ^ 53) * ?u"
    unfolding lo [symmetric] hi [symmetric] by simp_all
  with u have a: "of_int (2 ^ 52) \<le> x / ?u" and b: "x / ?u \<le> of_int (2 ^ 53)"
    by (simp_all add: pos_le_divide_eq pos_divide_le_eq)
  have "round_half_even (of_int (2 ^ 52)) \<le> round_half_even (x / ?u)"
    and "round_half_even (x / ?u) \<le> round_half_even (of_int (2 ^ 53))"
    using a b by (simp_all only: round_half_even_mono)
  then have "2 ^ 52 \<le> round_half_even (x / ?u)" and "round_half_even (x / ?u) \<le> 2 ^ 53"
    unfolding round_half_even_of_int by simp_all
  then have "(of_int (2 ^ 52) :: rat) \<le> of_int (round_half_even (x / ?u))"
    and "(of_int (round_half_even (x / ?u)) :: rat) \<le> of_int (2 ^ 53)"
    by (simp_all only: of_int_le_iff)
  with u have "of_int (2 ^ 52) * ?u \<le> of_int (round_half_even (x / ?u)) * ?u"
    and "of_int (round_half_even (x / ?u)) * ?u \<le> of_int (2 ^ 53) * ?u"
    by (simp_all add: mult_right_mono)
  then show ?thesis
    unfolding to_double_pos [OF assms] lo hi by simp
qed

lemma to_double_mono_pos:
  assumes "0 < x" and "x \<le> y"
  shows "to_double x \<le> to_double y"
proof -
  from assms have y: "0 < y" by simp
  show ?thesis
  proof (cases "binade x = binade y")
    case True
    let ?u = "(2::rat) powi (binade y - 52)"
    have u: "0 < ?u" by (simp add: zero_less_power_int)
    from assms(2) u have "x / ?u \<le> y / ?u" by (simp add: divide_right_mono)
    then have "round_half_even (x / ?u) \<le> round_half_even (y / ?u)"
      by (rule round_half_even_mono)
    then have "(of_int (round_half_even (x / ?u)) :: rat) \<le> of_int (round_half_even (y / ?u))"
      by (simp only: of_int_le_iff)
    with u have "of_int (round_half_even (x / ?u)) * ?u \<le> of_int (round_half_even (y / ?u)) * ?u"
      by (simp add: mult_right_mono)
    then show ?thesis
      unfolding to_double_pos [OF assms(1)] to_double_pos [OF y] True .
  next
    case False
    with binade_mono [OF assms] have "binade x + 1 \<le> binade y" by simp
    then have "(2::rat) powi (binade x + 1) \<le> 2 powi binade y"
      by (intro power_int_increasing) simp_all
    with to_double_range [OF assms(1)] to_double_range [OF y] show ?thesis by simp
  qed
qed

lemma to_double_nonneg: "0 \<le> x \<Longrightarrow> 0 \<le> to_double x"
proof -
  assume "0 \<le> x"
  show ?thesis
  proof (cases "x = 0")
    case True
    then show ?thesis by (simp add: to_double_def)
  next
    case False
    with \<open>0 \<le> x\<close> have x: "0 < x" by simp
    have "0 < (2::rat) powi binade x" by (simp add: zero_less_power_int)
    also from to_double_range [OF x] have "2 powi binade x \<le> to_double x" by blast
    finally show ?thesis by simp
  qed
qed

lemma to_double_mono:
  assumes "0 \<le> x" and "x \<le> y"
  shows "to_double x \<le> to_double y"
proof (cases "x = 0")
  case True
  from assms have "0 \<le> y" by simp
  then have "0 \<le> to_double y" by (rule to_double_nonneg)
  with True show ?thesis by (simp add: to_double_def)
next
  case False
  with assms(1) have "0 < x" by simp
  then show ?thesis using assms(2) by (rule to_double_mono_pos)
qed

lemma to_double_1: "to_double 1 = 1"
  by code_simp

lemma to_double_100: "to_double 100 = 100"
  by code_simp

lemma Math_round_mono: "x \<le> y \<Longrightarrow> Math_round x \<le> Math_round y"
  by (simp add: Math_round_def floor_mono)

lemma percent_mono: "x \<le> y \<Longrightarrow> percent x m \<le> percent y m"
  unfolding percent_def
  by (intro Math_round_mono to_double_mono mult_right_mono divide_right_mono mult_nonneg_nonneg
      to_double_nonneg) simp_all

lemma percent_all: "0 < m \<Longrightarrow> percent m m = 100"
proof -
  have "Math_round 100 = 100"
    unfolding Math_round_def by (rule floor_unique) simp_all
  then show "0 < m \<Longrightarrow> percent m m = 100"
    by (simp add: percent_def to_double_1 to_double_100)
qed

lemma percent_examples:
  "percent 1 3 = 33 \<and> percent 2 3 = 67 \<and> percent 1 8 = 13 \<and> percent 23 40 = 57 \<and>
   percent 29 200 = 14 \<and> percent 57 200 = 28 \<and> percent 207 360 = 57"
  by code_simp

lemma percent_nonneg: "0 \<le> percent k m"
proof -
  have "0 \<le> to_double (to_double (of_nat k / of_nat m) * 100)"
    by (intro to_double_nonneg mult_nonneg_nonneg) simp_all
  then have "(0::rat) \<le> to_double (to_double (of_nat k / of_nat m) * 100) + 1 / 2" by simp
  then show ?thesis by (simp add: percent_def Math_round_def)
qed

section \<open>The page, the network and the archive\<close>

text \<open>
  What an operation does to the page is kept as a log: every value assigned to the
  \<^verbatim>\<open>value\<close> of the \<^verbatim>\<open>#global-zip-progress\<close> bar, every click on a temporary download
  link (its \<^verbatim>\<open>href\<close> and its \<^verbatim>\<open>download\<close> name), the download of a generated archive
  (the entries of the archive and the name), every pause (in milliseconds) and every
  \<^verbatim>\<open>alert\<close>. An archive is the list of its file entries, each under the label of its
  folder and its name; a blob is a value of the type \<open>'b\<close>.
\<close>

type_synonym 'b archive = "((string \<times> string) \<times> 'b) list"

datatype 'b effect =
    Progress int
  | Download string string
  | DownloadArchive "'b archive" string
  | Pause nat
  | Alert string

record 'b page =
  bar :: bool
  effects :: "'b effect list"

text \<open>
  \<^verbatim>\<open>showGlobalProgress\<close> creates the bar, with the value 0, when the page has none yet.
  The page is taken to have the element \<^verbatim>\<open>#zip-global-placeholder\<close> the bar is put in.
\<close>

definition showGlobalProgress :: "'b page \<Rightarrow> 'b page" where
  "showGlobalProgress pg = (if bar pg then pg else pg\<lparr>bar := True, effects := effects pg @ [Progress 0]\<rparr>)"

definition set_progress :: "int \<Rightarrow> 'b page \<Rightarrow> 'b page" where
  "set_progress v pg = pg\<lparr>effects := effects pg @ [Progress v]\<rparr>"

definition emit :: "'b effect \<Rightarrow> 'b page \<Rightarrow> 'b page" where
  "emit e pg = pg\<lparr>effects := effects pg @ [e]\<rparr>"

fun progress_values :: "'b effect list \<Rightarrow> int list" where
  "progress_values [] = []"
| "progress_values (Progress v # es) = v # progress_values es"
| "progress_values (e # es) = progress_values es"

fun archives :: "'b effect list \<Rightarrow> 'b archive list" where
  "archives [] = []"
| "archives (DownloadArchive z n # es) = z # archives es"
| "archives (e # es) = archives es"

text \<open>
  The network. A page fetch rejects, or answers with a status (\<^verbatim>\<open>res.ok\<close>) and a
  document, of which the model keeps the \<^verbatim>\<open>href\<close> attributes of its anchors in document
  order (\<open>None\<close> for an anchor without one). A file fetch rejects, or answers with a
  status and a body that \<^verbatim>\<open>res.blob()\<close> decodes or fails to decode. The answers may
  differ from one request to the next, so they are looked up under the number of the
  request within the operation as well as the URL.
\<close>

datatype listing = PageThrew | Page bool "string option list"

datatype 'b fetched = FetchThrew | Response bool "'b option"

datatype js_error = TransportError | NetworkError | DecodeError | NoManifest | ParseError

record 'b env =
  hasZip :: bool
  fetch_page :: "nat \<Rightarrow> string \<Rightarrow> listing"
  fetch_file :: "nat \<Rightarrow> string \<Rightarrow> 'b fetched"
  schedule :: scheduler
  encoding :: "rat list"

text \<open>
  \<open>hasZip\<close> is whether \<^verbatim>\<open>ensureJSZip\<close> resolved, \<open>schedule\<close> the order in which
  overlapping fetches complete, \<open>encoding\<close> the percentages that \<^verbatim>\<open>generateAsync\<close>
  reports to its callback before it resolves.
\<close>

definition fetchBlob :: "'b fetched \<Rightarrow> js_error + 'b" where
  "fetchBlob r =
     (case r of
        FetchThrew \<Rightarrow> Inl TransportError
      | Response ok body \<Rightarrow>
          if \<not> ok then Inl NetworkError
          else (case body of None \<Rightarrow> Inl DecodeError | Some blob \<Rightarrow> Inr blob))"

text \<open>
  The files a listing page names: the anchors' \<^verbatim>\<open>href\<close>s, without the empty ones,
  those ending in \<^verbatim>\<open>../\<close> and those ending in a slash.
\<close>

definition listed_files :: "string option list \<Rightarrow> string list" where
  "listed_files hrefs =
     (let anchors = filter (\<lambda>h. \<not> endsWith h ''../'') (filter_Boolean hrefs)
      in filter (\<lambda>h. \<not> endsWith h ''/'') anchors)"

section \<open>Building an archive in the browser\<close>

record 'b build =
  page :: "'b page"
  zipped :: "'b archive"
  completed :: nat

text \<open>
  The body of both mappers given to \<^verbatim>\<open>mapWithConcurrency\<close>, after the fetch has
  settled: \<^verbatim>\<open>try\<close> puts the blob into the archive, \<^verbatim>\<open>catch\<close> skips the file, and
  \<^verbatim>\<open>finally\<close> counts the task and sets the bar. The promise is always fulfilled.
\<close>

definition fetch_and_pack ::
  "'b fetched \<Rightarrow> nat \<Rightarrow> string \<Rightarrow> string \<Rightarrow> ('b build, unit) continuation" where
  "fetch_and_pack answer n_tasks label name s =
     (let s1 = (case fetchBlob answer of
                  Inr blob \<Rightarrow> s\<lparr>zipped := AList.update (label, name) blob (zipped s)\<rparr>
                | Inl err \<Rightarrow> s);
          c = Suc (completed s1)
      in (s1\<lparr>completed := c,
              page := set_progress (percent c n_tasks) (page s1)\<rparr>,
          Fulfilled ()))"

text \<open>The mapper of \<^verbatim>\<open>createZipFromFolder\<close> (lines 312 to 322).\<close>

definition createZip_mapper ::
  "'b env \<Rightarrow> string \<Rightarrow> string \<Rightarrow> nat \<Rightarrow> nat \<Rightarrow> string \<Rightarrow> ('b build, unit) continuation" where
  "createZip_mapper env folderPath folderName n_tasks i f =
     fetch_and_pack (fetch_file env i (folderPath @ f)) n_tasks
       (or_else folderName ''photos'') (basename f)"

text \<open>
  \<^verbatim>\<open>zip.generateAsync\<close> with its progress callback, which sets the bar to every
  percentage that is not falsy.
\<close>

definition generateAsync :: "rat list \<Rightarrow> 'b page \<Rightarrow> 'b page" where
  "generateAsync percents pg =
     fold (\<lambda>p pg. if p \<noteq> 0 then set_progress (Math_round p) pg else pg) percents pg"

text \<open>\<^verbatim>\<open>downloadFilesSequentially\<close>: a click and a pause of 250 ms for every file.\<close>

definition download_name :: "string \<Rightarrow> string \<Rightarrow> string" where
  "download_name folderName f =
     (if folderName \<noteq> [] then underscore_spaces folderName @ ''_'' else []) @ basename f"

definition downloadFilesSequentially :: "string list \<Rightarrow> string \<Rightarrow> string \<Rightarrow> 'b page \<Rightarrow> 'b page" where
  "downloadFilesSequentially files basePath folderName pg =
     fold (\<lambda>f pg. emit (Pause 250) (emit (Download (basePath @ f) (download_name folderName f)) pg))
       files pg"

datatype completion = Returned | Raised

text \<open>
  \<^verbatim>\<open>createZipFromFolder\<close>. The listing is the first page fetch of the operation. The
  limit of 4 is written at the call.
\<close>

definition createZipFromFolder ::
  "'b env \<Rightarrow> string \<Rightarrow> string \<Rightarrow> 'b page \<Rightarrow> completion \<times> 'b page" where
  "createZipFromFolder env folderPath folderName pg =
     (case fetch_page env 0 folderPath of
        PageThrew \<Rightarrow> (Raised, pg)
      | Page ok hrefs \<Rightarrow>
          if \<not> ok then (Returned, emit (Alert ''Failed to list folder'') pg)
          else
            let files = listed_files hrefs in
            if files = [] then (Returned, emit (Alert ''No files found to zip'') pg)
            else if \<not> hasZip env then
              (Returned,
               set_progress 100 (showGlobalProgress
                 (downloadFilesSequentially files folderPath folderName
                   (set_progress 0 (showGlobalProgress pg)))))
            else
              (case mapWithConcurrency files
                      (createZip_mapper env folderPath folderName (length files)) 4 (schedule env)
                      \<lparr>page = showGlobalProgress pg, zipped = [], completed = 0\<rparr> of
                 (Rejected, run) \<Rightarrow> (Raised, page (shared run))
               | (Fulfilled rs, run) \<Rightarrow>
                   (Returned,
                    set_progress 100
                      (emit (DownloadArchive (zipped (shared run)) (or_else folderName ''photos'' @ ''.zip''))
                        (generateAsync (encoding env) (page (shared run)))))))"

section \<open>Download all visible\<close>

record task =
  tpath :: string
  tfile :: string
  tfolder :: string

text \<open>
  The tiles of the root are given by the folder title and the path of the open link as
  the function reads them. Each tile's listing is one page fetch; a tile whose listing
  is not ok is passed over, and a fetch that rejects ends the operation.
\<close>

fun gather :: "'b env \<Rightarrow> nat \<Rightarrow> (string \<times> string) list \<Rightarrow> task list \<Rightarrow> task list option" where
  "gather env k [] tasks = Some tasks"
| "gather env k ((name, path) # tiles) tasks =
     (case fetch_page env k path of
        PageThrew \<Rightarrow> None
      | Page ok hrefs \<Rightarrow>
          if \<not> ok then gather env (Suc k) tiles tasks
          else gather env (Suc k) tiles
                 (tasks @ map (\<lambda>f. \<lparr>tpath = path, tfile = f, tfolder = name\<rparr>) (listed_files hrefs)))"

definition downloadAll_mapper ::
  "'b env \<Rightarrow> nat \<Rightarrow> nat \<Rightarrow> task \<Rightarrow> ('b build, unit) continuation" where
  "downloadAll_mapper env n_tasks i t =
     fetch_and_pack (fetch_file env i (tpath t @ tfile t)) n_tasks (tfolder t) (basename (tfile t))"

text \<open>The fallback without the zip library: a click, the bar and a pause of 200 ms per task.\<close>

fun download_each :: "nat \<Rightarrow> nat \<Rightarrow> task list \<Rightarrow> 'b page \<Rightarrow> 'b page" where
  "download_each n_tasks finished [] pg = pg"
| "download_each n_tasks finished (t # ts) pg =
     download_each n_tasks (Suc finished) ts
       (emit (Pause 200)
         (set_progress (percent (Suc finished) n_tasks)
           (emit (Download (tpath t @ tfile t) (download_name (tfolder t) (tfile t))) pg)))"

definition downloadAllVisible ::
  "'b env \<Rightarrow> (string \<times> string) list \<Rightarrow> 'b page \<Rightarrow> completion \<times> 'b page" where
  "downloadAllVisible env tiles pg =
     (let pg1 = showGlobalProgress pg in
      case gather env 0 tiles [] of
        None \<Rightarrow> (Raised, pg1)
      | Some tasks \<Rightarrow>
          if tasks = [] then (Returned, emit (Alert ''No files found'') pg1)
          else if \<not> hasZip env then
            (Returned, set_progress 100 (download_each (length tasks) 0 tasks pg1))
          else
            (case mapWithConcurrency tasks (downloadAll_mapper env (length tasks)) 4 (schedule env)
                    \<lparr>page = pg1, zipped = [], completed = 0\<rparr> of
               (Rejected, run) \<Rightarrow> (Raised, page (shared run))
             | (Fulfilled rs, run) \<Rightarrow>
                 (Returned,
                  set_progress 100
                    (emit (DownloadArchive (zipped (shared run)) ''photos-all.zip'')
                      (generateAsync (encoding env) (page (shared run)))))))"

section \<open>What a build leaves behind\<close>

text \<open>
  The values the bar takes while \<open>m\<close> tasks complete one after the other, and the
  values the callback of \<^verbatim>\<open>generateAsync\<close> gives it.
\<close>

definition fetch_progress :: "nat \<Rightarrow> int list" where
  "fetch_progress m = map (\<lambda>k. percent k m) [1..<Suc m]"

definition encode_progress :: "rat list \<Rightarrow> int list" where
  "encode_progress ps = map Math_round (filter (\<lambda>p. p \<noteq> 0) ps)"

text \<open>
  The entries of an archive built from the invocations \<open>order\<close>: the keys of those
  whose file was fetched and decoded.
\<close>

definition fetched_ok :: "'b fetched \<Rightarrow> bool" where
  "fetched_ok a = (case fetchBlob a of Inr blob \<Rightarrow> True | Inl e \<Rightarrow> False)"

definition packed :: "(nat \<Rightarrow> 'b fetched) \<Rightarrow> (nat \<Rightarrow> string \<times> string) \<Rightarrow> nat list \<Rightarrow> (string \<times> string) set" where
  "packed ans key order = set (map key (filter (\<lambda>j. fetched_ok (ans j)) order))"

lemma fetch_and_pack_fulfilled: "snd (fetch_and_pack a t l n s) = Fulfilled ()"
  by (simp add: fetch_and_pack_def Let_def)

lemma fetch_and_pack_completed: "completed (fst (fetch_and_pack a t l n s)) = Suc (completed s)"
  by (simp add: fetch_and_pack_def Let_def split: sum.split)

lemma fetch_and_pack_page:
  "page (fst (fetch_and_pack a t l n s)) =
     set_progress (percent (Suc (completed s)) t) (page s)"
  by (simp add: fetch_and_pack_def Let_def split: sum.split)

lemma fetch_and_pack_zipped:
  "zipped (fst (fetch_and_pack a t l n s)) =
     (case fetchBlob a of Inr blob \<Rightarrow> AList.update (l, n) blob (zipped s) | Inl e \<Rightarrow> zipped s)"
  by (simp add: fetch_and_pack_def Let_def split: sum.split)

lemma fold_fetch_and_pack_completed:
  "completed (fold (\<lambda>j s. fst (fetch_and_pack (ans j) t (lab j) (nm j) s)) order s) =
     completed s + length order"
  by (induction order arbitrary: s) (simp_all add: fetch_and_pack_completed)

lemma fold_fetch_and_pack_bar:
  "bar (page (fold (\<lambda>j s. fst (fetch_and_pack (ans j) t (lab j) (nm j) s)) order s)) = bar (page s)"
  by (induction order arbitrary: s) (simp_all add: fetch_and_pack_page set_progress_def)

lemma fold_fetch_and_pack_effects:
  "effects (page (fold (\<lambda>j s. fst (fetch_and_pack (ans j) t (lab j) (nm j) s)) order s)) =
     effects (page s) @
     map (\<lambda>k. Progress (percent k t))
       [Suc (completed s)..<Suc (completed s + length order)]"
proof (induction order arbitrary: s)
  case Nil
  show ?case by simp
next
  case (Cons j order)
  have e: "[Suc c..<Suc (Suc (c + n))] = Suc c # [Suc (Suc c)..<Suc (Suc (c + n))]" for c n :: nat
    by (rule upt_conv_Cons) simp
  show ?case
    by (simp add: Cons.IH fetch_and_pack_completed fetch_and_pack_page set_progress_def e
             del: upt_Suc)
qed

lemma fold_fetch_and_pack_zipped:
  "fst ` set (zipped (fold (\<lambda>j s. fst (fetch_and_pack (ans j) t (lab j) (nm j) s)) order s)) =
     fst ` set (zipped s) \<union> packed ans (\<lambda>j. (lab j, nm j)) order"
proof (induction order arbitrary: s)
  case Nil
  show ?case by (simp add: packed_def)
next
  case (Cons j order)
  have "packed ans (\<lambda>j. (lab j, nm j)) (j # order) =
      (case fetchBlob (ans j) of Inr blob \<Rightarrow> {(lab j, nm j)} | Inl e \<Rightarrow> {}) \<union>
      packed ans (\<lambda>j. (lab j, nm j)) order"
    by (auto simp: packed_def fetched_ok_def split: sum.splits)
  then show ?case
    by (auto simp: Cons.IH fetch_and_pack_zipped dom_update split: sum.splits)
qed

lemma sorted_fetch_progress: "sorted (fetch_progress m)"
proof -
  have "sorted_wrt (\<lambda>x y. percent x m \<le> percent y m) [1..<Suc m]"
  proof (rule sorted_wrt_mono_rel [where P = "(\<le>)"])
    show "sorted_wrt (\<le>) [1..<Suc m]" by (simp del: upt_Suc)
  qed (simp add: percent_mono)
  then show ?thesis
    by (simp add: fetch_progress_def sorted_map del: upt_Suc)
qed

lemma last_fetch_progress: "0 < m \<Longrightarrow> last (fetch_progress m) = 100"
  by (simp add: fetch_progress_def percent_all)

lemma generateAsync_effects:
  "effects (generateAsync ps pg) = effects pg @ map Progress (encode_progress ps)"
  unfolding generateAsync_def encode_progress_def
  by (induction ps arbitrary: pg) (simp_all add: set_progress_def)

lemma packed_cong: "set order = set order' \<Longrightarrow> packed ans key order = packed ans key order'"
  by (simp add: packed_def)

lemma generateAsync_bar: "bar (generateAsync ps pg) = bar pg"
  unfolding generateAsync_def
  by (induction ps arbitrary: pg) (simp_all add: set_progress_def)

lemma fetch_and_pack_run:
  assumes m: "\<And>j. j < length list \<Longrightarrow>
      mapper j (list ! j) = fetch_and_pack (ans j) (length list) (lab j) (nm j)"
  shows "\<exists>rs run. mapWithConcurrency list mapper n sch \<lparr>page = pg, zipped = [], completed = 0\<rparr> =
             (Fulfilled rs, run) \<and>
           effects (page (shared run)) = effects pg @ map Progress (fetch_progress (length list)) \<and>
           bar (page (shared run)) = bar pg \<and>
           fst ` set (zipped (shared run)) = packed ans (\<lambda>j. (lab j, nm j)) [0..<length list]"
proof -
  let ?s0 = "\<lparr>page = pg, zipped = [], completed = 0\<rparr>"
  let ?res = "mapWithConcurrency list mapper n sch ?s0"
  let ?step = "\<lambda>j s. fst (fetch_and_pack (ans j) (length list) (lab j) (nm j) s)"
  have nr: "never_rejects mapper list"
    by (simp add: never_rejects_def m fetch_and_pack_fulfilled)
  from mapWithConcurrency_fulfilled [OF nr, of n sch ?s0]
  obtain rs where rs: "fst ?res = Fulfilled rs" by blast
  from mapWithConcurrency_shared [OF nr, of n sch ?s0]
  obtain order where order: "set order = {0..<length list}" and dist: "distinct order"
    and sh: "shared (snd ?res) = fold (\<lambda>j s. fst (mapper j (list ! j) s)) order ?s0"
    by blast
  have "fold (\<lambda>j s. fst (mapper j (list ! j) s)) order ?s0 = fold ?step order ?s0"
    using order by (intro fold_cong) (simp_all add: m)
  with sh have sh': "shared (snd ?res) = fold ?step order ?s0" by simp
  from dist have "length order = card (set order)" by (simp add: distinct_card)
  with order have len: "length order = length list" by simp
  have eff: "effects (page (shared (snd ?res))) =
      effects pg @ map Progress (fetch_progress (length list))"
    unfolding sh' fold_fetch_and_pack_effects
    by (simp add: len fetch_progress_def del: upt_Suc)
  have b: "bar (page (shared (snd ?res))) = bar pg"
    unfolding sh' fold_fetch_and_pack_bar by simp
  have "packed ans (\<lambda>j. (lab j, nm j)) order = packed ans (\<lambda>j. (lab j, nm j)) [0..<length list]"
    using order by (intro packed_cong) simp
  then have z: "fst ` set (zipped (shared (snd ?res))) =
      packed ans (\<lambda>j. (lab j, nm j)) [0..<length list]"
    unfolding sh' fold_fetch_and_pack_zipped by simp
  have "?res = (Fulfilled rs, snd ?res)"
    using rs by (metis prod.collapse)
  with eff b z show ?thesis by blast
qed

lemma createZipFromFolder_builds:
  assumes "fetch_page env 0 folderPath = Page True hrefs"
    and "listed_files hrefs = files" and "files \<noteq> []" and "hasZip env"
  shows "\<exists>z. fst (createZipFromFolder env folderPath folderName pg) = Returned \<and>
           effects (snd (createZipFromFolder env folderPath folderName pg)) =
             effects (showGlobalProgress pg) @ map Progress (fetch_progress (length files)) @
             map Progress (encode_progress (encoding env)) @
             [DownloadArchive z (or_else folderName ''photos'' @ ''.zip''), Progress 100] \<and>
           fst ` set z =
             packed (\<lambda>j. fetch_file env j (folderPath @ files ! j))
               (\<lambda>j. (or_else folderName ''photos'', basename (files ! j))) [0..<length files]"
proof -
  let ?mapper = "createZip_mapper env folderPath folderName (length files)"
  have "\<exists>rs run. mapWithConcurrency files ?mapper 4 (schedule env)
             \<lparr>page = showGlobalProgress pg, zipped = [], completed = 0\<rparr> = (Fulfilled rs, run) \<and>
           effects (page (shared run)) =
             effects (showGlobalProgress pg) @ map Progress (fetch_progress (length files)) \<and>
           bar (page (shared run)) = bar (showGlobalProgress pg) \<and>
           fst ` set (zipped (shared run)) =
             packed (\<lambda>j. fetch_file env j (folderPath @ files ! j))
               (\<lambda>j. (or_else folderName ''photos'', basename (files ! j))) [0..<length files]"
    by (rule fetch_and_pack_run) (simp add: createZip_mapper_def)
  then obtain rs run where
    "mapWithConcurrency files ?mapper 4 (schedule env)
       \<lparr>page = showGlobalProgress pg, zipped = [], completed = 0\<rparr> = (Fulfilled rs, run)"
    and "effects (page (shared run)) =
       effects (showGlobalProgress pg) @ map Progress (fetch_progress (length files))"
    and "fst ` set (zipped (shared run)) =
       packed (\<lambda>j. fetch_file env j (folderPath @ files ! j))
         (\<lambda>j. (or_else folderName ''photos'', basename (files ! j))) [0..<length files]"
    by blast
  with assms show ?thesis
    by (simp add: createZipFromFolder_def set_progress_def emit_def generateAsync_effects)
qed

lemma downloadAllVisible_builds:
  assumes "gather env 0 tiles [] = Some tasks" and "tasks \<noteq> []" and "hasZip env"
  shows "\<exists>z. fst (downloadAllVisible env tiles pg) = Returned \<and>
           effects (snd (downloadAllVisible env tiles pg)) =
             effects (showGlobalProgress pg) @ map Progress (fetch_progress (length tasks)) @
             map Progress (encode_progress (encoding env)) @
             [DownloadArchive z ''photos-all.zip'', Progress 100] \<and>
           fst ` set z =
             packed (\<lambda>j. fetch_file env j (tpath (tasks ! j) @ tfile (tasks ! j)))
               (\<lambda>j. (tfolder (tasks ! j), basename (tfile (tasks ! j)))) [0..<length tasks]"
proof -
  let ?mapper = "downloadAll_mapper env (length tasks)"
  have "\<exists>rs run. mapWithConcurrency tasks ?mapper 4 (schedule env)
             \<lparr>page = showGlobalProgress pg, zipped = [], completed = 0\<rparr> = (Fulfilled rs, run) \<and>
           effects (page (shared run)) =
             effects (showGlobalProgress pg) @ map Progress (fetch_progress (length tasks)) \<and>
           bar (page (shared run)) = bar (showGlobalProgress pg) \<and>
           fst ` set (zipped (shared run)) =
             packed (\<lambda>j. fetch_file env j (tpath (tasks ! j) @ tfile (tasks ! j)))
               (\<lambda>j. (tfolder (tasks ! j), basename (tfile (tasks ! j)))) [0..<length tasks]"
    by (rule fetch_and_pack_run) (simp add: downloadAll_mapper_def)
  then obtain rs run where
    "mapWithConcurrency tasks ?mapper 4 (schedule env)
       \<lparr>page = showGlobalProgress pg, zipped = [], completed = 0\<rparr> = (Fulfilled rs, run)"
    and "effects (page (shared run)) =
       effects (showGlobalProgress pg) @ map Progress (fetch_progress (length tasks))"
    and "fst ` set (zipped (shared run)) =
       packed (\<lambda>j. fetch_file env j (tpath (tasks ! j) @ tfile (tasks ! j)))
         (\<lambda>j. (tfolder (tasks ! j), basename (tfile (tasks ! j)))) [0..<length tasks]"
    by blast
  with assms show ?thesis
    by (simp add: downloadAllVisible_def Let_def set_progress_def emit_def generateAsync_effects)
qed

text \<open>
  Which fetches put a file into the archive, said of the answers themselves: those with
  an ok status and a body that decodes, and the entry holds that body.
\<close>

lemma fetchBlob_Inr: "fetchBlob a = Inr blob \<longleftrightarrow> a = Response True (Some blob)"
  by (auto simp: fetchBlob_def split: fetched.splits option.splits)

lemma fetched_ok_iff: "fetched_ok a \<longleftrightarrow> (\<exists>blob. a = Response True (Some blob))"
  by (auto simp: fetched_ok_def fetchBlob_def split: fetched.splits option.splits)

lemma packed_upt:
  "packed ans key [0..<m] = {key j |j. j < m \<and> (\<exists>blob. ans j = Response True (Some blob))}"
  by (auto simp: packed_def fetched_ok_iff)

lemma set_update_subset: "set (AList.update k v al) \<subseteq> insert (k, v) (set al)"
  by (induction al) auto

lemma fold_fetch_and_pack_values:
  "e \<in> set (zipped (fold (\<lambda>j s. fst (fetch_and_pack (ans j) t (lab j) (nm j) s)) order s)) \<Longrightarrow>
     e \<in> set (zipped s) \<or>
     (\<exists>j\<in>set order. fst e = (lab j, nm j) \<and> ans j = Response True (Some (snd e)))"
proof (induction order arbitrary: s)
  case Nil
  then show ?case by simp
next
  case (Cons j order)
  let ?s1 = "fst (fetch_and_pack (ans j) t (lab j) (nm j) s)"
  from Cons.prems have "e \<in> set (zipped (fold (\<lambda>j s. fst (fetch_and_pack (ans j) t (lab j) (nm j) s)) order ?s1))"
    by simp
  from Cons.IH [OF this] consider "e \<in> set (zipped ?s1)"
    | "\<exists>j\<in>set order. fst e = (lab j, nm j) \<and> ans j = Response True (Some (snd e))"
    by blast
  then show ?case
  proof cases
    case 1
    show ?thesis
    proof (cases "fetchBlob (ans j)")
      case (Inl err)
      with 1 show ?thesis by (simp add: fetch_and_pack_zipped)
    next
      case (Inr blob)
      with 1 have "e \<in> set (AList.update (lab j, nm j) blob (zipped s))"
        by (simp add: fetch_and_pack_zipped)
      with set_update_subset have "e = ((lab j, nm j), blob) \<or> e \<in> set (zipped s)"
        by fastforce
      with Inr show ?thesis by (auto simp: fetchBlob_Inr)
    qed
  next
    case 2
    then show ?thesis by auto
  qed
qed

lemma fetch_and_pack_run_values:
  assumes m: "\<And>j. j < length list \<Longrightarrow>
      mapper j (list ! j) = fetch_and_pack (ans j) (length list) (lab j) (nm j)"
    and e: "e \<in> set (zipped (shared (snd (mapWithConcurrency list mapper n sch
              \<lparr>page = pg, zipped = [], completed = 0\<rparr>))))"
  shows "\<exists>j<length list. fst e = (lab j, nm j) \<and> ans j = Response True (Some (snd e))"
proof -
  let ?s0 = "\<lparr>page = pg, zipped = [], completed = 0\<rparr>"
  let ?res = "mapWithConcurrency list mapper n sch ?s0"
  let ?step = "\<lambda>j s. fst (fetch_and_pack (ans j) (length list) (lab j) (nm j) s)"
  have nr: "never_rejects mapper list"
    by (simp add: never_rejects_def m fetch_and_pack_fulfilled)
  from mapWithConcurrency_shared [OF nr, of n sch ?s0]
  obtain order where order: "set order = {0..<length list}"
    and sh: "shared (snd ?res) = fold (\<lambda>j s. fst (mapper j (list ! j) s)) order ?s0"
    by blast
  have "fold (\<lambda>j s. fst (mapper j (list ! j) s)) order ?s0 = fold ?step order ?s0"
    using order by (intro fold_cong) (simp_all add: m)
  with sh e have "e \<in> set (zipped (fold ?step order ?s0))" by simp
  from fold_fetch_and_pack_values [OF this] order show ?thesis by auto
qed

lemma createZipFromFolder_archive:
  assumes "fetch_page env 0 folderPath = Page True hrefs"
    and "listed_files hrefs = files" and "files \<noteq> []" and "hasZip env"
  shows "\<exists>z. fst (createZipFromFolder env folderPath folderName pg) = Returned \<and>
           effects (snd (createZipFromFolder env folderPath folderName pg)) =
             effects (showGlobalProgress pg) @ map Progress (fetch_progress (length files)) @
             map Progress (encode_progress (encoding env)) @
             [DownloadArchive z (or_else folderName ''photos'' @ ''.zip''), Progress 100] \<and>
           fst ` set z =
             {(or_else folderName ''photos'', basename (files ! j)) |j. j < length files \<and>
                (\<exists>blob. fetch_file env j (folderPath @ files ! j) = Response True (Some blob))} \<and>
           (\<forall>e\<in>set z. \<exists>j<length files.
              fst e = (or_else folderName ''photos'', basename (files ! j)) \<and>
              fetch_file env j (folderPath @ files ! j) = Response True (Some (snd e)))"
proof -
  let ?mapper = "createZip_mapper env folderPath folderName (length files)"
  let ?res = "mapWithConcurrency files ?mapper 4 (schedule env)
      \<lparr>page = showGlobalProgress pg, zipped = [], completed = 0\<rparr>"
  let ?ans = "\<lambda>j. fetch_file env j (folderPath @ files ! j)"
  let ?nm = "\<lambda>j. basename (files ! j)"
  have m: "?mapper j (files ! j) =
      fetch_and_pack (?ans j) (length files) (or_else folderName ''photos'') (?nm j)" for j
    by (simp add: createZip_mapper_def)
  have "\<exists>rs run. ?res = (Fulfilled rs, run) \<and>
           effects (page (shared run)) =
             effects (showGlobalProgress pg) @ map Progress (fetch_progress (length files)) \<and>
           bar (page (shared run)) = bar (showGlobalProgress pg) \<and>
           fst ` set (zipped (shared run)) =
             packed ?ans (\<lambda>j. (or_else folderName ''photos'', ?nm j)) [0..<length files]"
    by (rule fetch_and_pack_run) (rule m)
  then obtain rs run where res: "?res = (Fulfilled rs, run)"
    and eff: "effects (page (shared run)) =
       effects (showGlobalProgress pg) @ map Progress (fetch_progress (length files))"
    and keys: "fst ` set (zipped (shared run)) =
       packed ?ans (\<lambda>j. (or_else folderName ''photos'', ?nm j)) [0..<length files]"
    by blast
  have run: "run = snd ?res" by (simp add: res)
  have vals: "\<exists>j<length files. fst e = (or_else folderName ''photos'', ?nm j) \<and>
      ?ans j = Response True (Some (snd e))" if "e \<in> set (zipped (shared run))" for e
    using that unfolding run by (rule fetch_and_pack_run_values [rotated]) (rule m)
  have "fst (createZipFromFolder env folderPath folderName pg) = Returned"
    and "effects (snd (createZipFromFolder env folderPath folderName pg)) =
       effects (showGlobalProgress pg) @ map Progress (fetch_progress (length files)) @
       map Progress (encode_progress (encoding env)) @
       [DownloadArchive (zipped (shared run)) (or_else folderName ''photos'' @ ''.zip''), Progress 100]"
    using assms res eff
    by (simp_all add: createZipFromFolder_def set_progress_def emit_def generateAsync_effects)
  with keys vals show ?thesis
    unfolding packed_upt by blast
qed

lemma createZip_mapper_never_rejects: "never_rejects (createZip_mapper env folderPath folderName m) files"
  by (simp add: never_rejects_def createZip_mapper_def fetch_and_pack_fulfilled)

lemma downloadAll_mapper_never_rejects: "never_rejects (downloadAll_mapper env m) tasks"
  by (simp add: never_rejects_def downloadAll_mapper_def fetch_and_pack_fulfilled)

text \<open>
  The values an operation has given the bar: what the log holds of them after the
  operation, beyond what it held before. A build that had \<open>m\<close> tasks gives it the
  values of the tasks' completions, those of the encoder and a last 100.
\<close>

definition written :: "'b page \<Rightarrow> 'b page \<Rightarrow> int list" where
  "written before after =
     drop (length (progress_values (effects before))) (progress_values (effects after))"

definition build_progress :: "bool \<Rightarrow> nat \<Rightarrow> rat list \<Rightarrow> int list" where
  "build_progress had_bar m percents =
     (if had_bar then [] else [0]) @ fetch_progress m @ encode_progress percents @ [100]"

text \<open>
  An example: a folder lists \<^verbatim>\<open>a.jpg\<close> and \<^verbatim>\<open>b.jpg\<close>, the fetch of \<^verbatim>\<open>b.jpg\<close>
  fails, the youngest pending fetch completes first, and the encoder reports 50 percent
  once.
\<close>

definition example_env :: "unit env" where
  "example_env =
     \<lparr>hasZip = True,
      fetch_page = (\<lambda>k u. Page True [Some ''../'', Some ''a.jpg'', Some ''b.jpg'']),
      fetch_file = (\<lambda>i u. if u = ''/photos/x/b.jpg'' then FetchThrew else Response True (Some ())),
      schedule = (\<lambda>ids. [last ids]),
      encoding = [50]\<rparr>"

text \<open>
  Another: of five files one fetch rejects, one answers with a status that is not ok, one
  has a body that does not decode, and the promises all settle as soon as they can.
\<close>

definition faulty_env :: "string env" where
  "faulty_env =
     \<lparr>hasZip = True,
      fetch_page = (\<lambda>k u. Page True
        [Some ''a.jpg'', Some ''b.jpg'', Some ''c.jpg'', Some ''d.jpg'', Some ''e.jpg'']),
      fetch_file = (\<lambda>i u.
        if u = ''/photos/x/b.jpg'' then FetchThrew
        else if u = ''/photos/x/c.jpg'' then Response False (Some ''Not Found'')
        else if u = ''/photos/x/d.jpg'' then Response True None
        else Response True (Some (''bytes of '' @ u))),
      schedule = (\<lambda>ids. ids),
      encoding = []\<rparr>"

lemma progress_values_append: "progress_values (es @ fs) = progress_values es @ progress_values fs"
  by (induction es rule: progress_values.induct) simp_all

lemma progress_values_Progress: "progress_values (map Progress vs) = vs"
  by (induction vs) simp_all

lemma archives_append: "archives (es @ fs) = archives es @ archives fs"
  by (induction es rule: archives.induct) simp_all

lemma archives_Progress: "archives (map Progress vs) = []"
  by (induction vs) simp_all

lemma progress_values_showGlobalProgress:
  "progress_values (effects (showGlobalProgress pg)) =
     progress_values (effects pg) @ (if bar pg then [] else [0])"
  by (simp add: showGlobalProgress_def progress_values_append)

lemma archives_showGlobalProgress: "archives (effects (showGlobalProgress pg)) = archives (effects pg)"
  by (simp add: showGlobalProgress_def archives_append)

lemma progress_values_download_each:
  "progress_values (effects (download_each t d ts pg)) =
     progress_values (effects pg) @ map (\<lambda>k. percent k t) [Suc d..<Suc (d + length ts)]"
proof (induction ts arbitrary: d pg)
  case Nil
  show ?case by simp
next
  case (Cons x ts)
  have e: "[Suc c..<Suc (Suc (c + n))] = Suc c # [Suc (Suc c)..<Suc (Suc (c + n))]" for c n :: nat
    by (rule upt_conv_Cons) simp
  show ?case
    by (simp add: Cons.IH emit_def set_progress_def progress_values_append e del: upt_Suc)
qed

lemma fetch_progress_nonneg: "v \<in> set (fetch_progress m) \<Longrightarrow> 0 \<le> v"
  unfolding fetch_progress_def by (auto simp: percent_nonneg simp del: upt_Suc)

lemma percent_le_100: "k \<le> m \<Longrightarrow> 0 < m \<Longrightarrow> percent k m \<le> 100"
  using percent_mono [of k m m] percent_all [of m] by simp

lemma fetch_progress_le: "v \<in> set (fetch_progress m) \<Longrightarrow> 0 < m \<Longrightarrow> v \<le> 100"
  unfolding fetch_progress_def by (auto simp: percent_le_100 simp del: upt_Suc)

lemma sorted_created_fetch_progress: "sorted ((if b then [] else [0]) @ fetch_progress m)"
  by (simp add: sorted_append sorted_fetch_progress fetch_progress_nonneg)

lemma last_build_progress: "last (build_progress b m percents) = 100"
  by (simp add: build_progress_def)

section \<open>Looking for a pre-built archive\<close>

text \<open>
  A \<^verbatim>\<open>HEAD\<close> request rejects or answers with a status. The answer may depend on the
  requests the click handler has made before, so the environment is asked with the URLs
  probed so far and the URL; the handlers return the URLs they probed, in order.
\<close>

datatype head_result = Threw | Status bool

type_synonym prober = "string list \<Rightarrow> string \<Rightarrow> head_result"

fun findAvailableZip :: "prober \<Rightarrow> string list \<Rightarrow> string list \<Rightarrow> string option \<times> string list" where
  "findAvailableZip head probed [] = (None, probed)"
| "findAvailableZip head probed (c # cs) =
     (case head probed c of
        Status True \<Rightarrow> (Some c, probed @ [c])
      | _ \<Rightarrow> findAvailableZip head (probed @ [c]) cs)"

text \<open>
  What a click on a zip button ends in: a click on a temporary link (its \<^verbatim>\<open>href\<close> and
  \<^verbatim>\<open>download\<close> name), or the call \<^verbatim>\<open>createZipFromFolder(path, name)\<close>.
\<close>

datatype action = TriggerDownload string string | ClientZip string string

definition minnesotaZipPath :: string where
  "minnesotaZipPath = ''/photos/minnesota/minnesota.zip''"

text \<open>The candidates of \<^verbatim>\<open>folderTile\<close> (lines 175 to 181).\<close>

definition tile_candidates :: "string \<Rightarrow> string \<Rightarrow> string list" where
  "tile_candidates name path =
     (let folderName = encodeURIComponent (or_else name ''photos'')
      in [path @ folderName @ ''.zip'',
          path @ folderName @ ''.ZIP'',
          ''/photos/'' @ folderName @ ''.zip'',
          ''/photos/altfiles/'' @ folderName @ ''.zip''])"

text \<open>The click handler of the zip button of a folder tile (lines 146 to 189).\<close>

definition tile_zip_click :: "prober \<Rightarrow> string \<Rightarrow> string \<Rightarrow> action \<times> string list" where
  "tile_zip_click head name path =
     (let special = (name \<noteq> [] \<and> toLowerCase name = ''minnesota'');
          probed = (if special then [minnesotaZipPath] else [])
      in if special \<and> head [] minnesotaZipPath = Status True
         then (TriggerDownload minnesotaZipPath ''minnesota.zip'', probed)
         else (case findAvailableZip head probed (tile_candidates name path) of
                 (Some found, probed') \<Rightarrow>
                   (TriggerDownload found (or_else name ''photos'' @ ''.zip''), probed')
               | (None, probed') \<Rightarrow> (ClientZip path name, probed')))"

text \<open>
  The click handler of the zip button of a folder page (\<^verbatim>\<open>renderFolderPage\<close>, lines 514
  to 559). \<open>folderName\<close> is the variable of that name of \<^verbatim>\<open>renderFolderPage\<close>, which
  the handler closes over.
\<close>

definition page_candidates :: "string \<Rightarrow> string \<Rightarrow> string list" where
  "page_candidates folderName basePath =
     [basePath @ encodeURIComponent folderName @ ''.zip'',
      basePath @ encodeURIComponent folderName @ ''.ZIP'',
      ''/photos/'' @ encodeURIComponent folderName @ ''.zip'',
      ''/photos/altfiles/'' @ encodeURIComponent folderName @ ''.zip'']"

definition page_zip_click :: "prober \<Rightarrow> string \<Rightarrow> string \<Rightarrow> action \<times> string list" where
  "page_zip_click head folderName basePath =
     (if head [] minnesotaZipPath = Status True
      then (TriggerDownload minnesotaZipPath ''minnesota.zip'', [minnesotaZipPath])
      else (case findAvailableZip head [minnesotaZipPath] (page_candidates folderName basePath) of
              (Some found, probed') \<Rightarrow>
                (TriggerDownload found (or_else folderName ''photos'' @ ''.zip''), probed')
            | (None, probed') \<Rightarrow> (ClientZip basePath folderName, probed')))"

text \<open>
  The resolution as the specification words it: the candidates are probed in order, the
  first whose probe succeeds is the result and nothing after it is probed, and the
  result is null when every probe fails.
\<close>

definition first_available :: "prober \<Rightarrow> string list \<Rightarrow> string list \<Rightarrow> string option \<Rightarrow> string list \<Rightarrow> bool" where
  "first_available head probed cs result probed' =
     ((\<exists>i<length cs. result = Some (cs ! i) \<and> probed' = probed @ take (Suc i) cs \<and>
          head (probed @ take i cs) (cs ! i) = Status True \<and>
          (\<forall>j<i. head (probed @ take j cs) (cs ! j) \<noteq> Status True)) \<or>
      (result = None \<and> probed' = probed @ cs \<and>
          (\<forall>j<length cs. head (probed @ take j cs) (cs ! j) \<noteq> Status True)))"

lemma findAvailableZip_first_available:
  "first_available head probed cs (fst (findAvailableZip head probed cs))
     (snd (findAvailableZip head probed cs))"
proof (induction cs arbitrary: probed)
  case Nil
  show ?case by (simp add: first_available_def)
next
  case (Cons c cs)
  show ?case
  proof (cases "head probed c = Status True")
    case True
    then have "\<exists>i<length (c # cs). Some c = Some ((c # cs) ! i) \<and>
        probed @ [c] = probed @ take (Suc i) (c # cs) \<and>
        head (probed @ take i (c # cs)) ((c # cs) ! i) = Status True \<and>
        (\<forall>j<i. head (probed @ take j (c # cs)) ((c # cs) ! j) \<noteq> Status True)"
      by (intro exI [of _ 0]) simp
    with True show ?thesis by (simp add: first_available_def)
  next
    case False
    then have step: "findAvailableZip head probed (c # cs) = findAvailableZip head (probed @ [c]) cs"
      by (cases "head probed c") (auto split: bool.splits)
    let ?r = "fst (findAvailableZip head (probed @ [c]) cs)"
    let ?p = "snd (findAvailableZip head (probed @ [c]) cs)"
    from Cons.IH [of "probed @ [c]"]
    have "(\<exists>i<length cs. ?r = Some (cs ! i) \<and> ?p = (probed @ [c]) @ take (Suc i) cs \<and>
          head ((probed @ [c]) @ take i cs) (cs ! i) = Status True \<and>
          (\<forall>j<i. head ((probed @ [c]) @ take j cs) (cs ! j) \<noteq> Status True)) \<or>
        (?r = None \<and> ?p = (probed @ [c]) @ cs \<and>
          (\<forall>j<length cs. head ((probed @ [c]) @ take j cs) (cs ! j) \<noteq> Status True))"
      unfolding first_available_def .
    then show ?thesis
    proof (elim disjE exE conjE)
      fix i
      assume hit: "i < length cs" "?r = Some (cs ! i)" "?p = (probed @ [c]) @ take (Suc i) cs"
        "head ((probed @ [c]) @ take i cs) (cs ! i) = Status True"
        "\<forall>j<i. head ((probed @ [c]) @ take j cs) (cs ! j) \<noteq> Status True"
      have "\<forall>j<Suc i. head (probed @ take j (c # cs)) ((c # cs) ! j) \<noteq> Status True"
        using hit(5) False by (auto simp: less_Suc_eq_0_disj)
      with hit have "Suc i < length (c # cs) \<and> ?r = Some ((c # cs) ! Suc i) \<and>
          ?p = probed @ take (Suc (Suc i)) (c # cs) \<and>
          head (probed @ take (Suc i) (c # cs)) ((c # cs) ! Suc i) = Status True \<and>
          (\<forall>j<Suc i. head (probed @ take j (c # cs)) ((c # cs) ! j) \<noteq> Status True)"
        by simp
      then have "\<exists>k<length (c # cs). ?r = Some ((c # cs) ! k) \<and>
          ?p = probed @ take (Suc k) (c # cs) \<and>
          head (probed @ take k (c # cs)) ((c # cs) ! k) = Status True \<and>
          (\<forall>j<k. head (probed @ take j (c # cs)) ((c # cs) ! j) \<noteq> Status True)"
        by (intro exI [of _ "Suc i"])
      then show ?thesis
        unfolding first_available_def step by (rule disjI1)
    next
      assume miss: "?r = None" "?p = (probed @ [c]) @ cs"
        "\<forall>j<length cs. head ((probed @ [c]) @ take j cs) (cs ! j) \<noteq> Status True"
      have "\<forall>j<length (c # cs). head (probed @ take j (c # cs)) ((c # cs) ! j) \<noteq> Status True"
        using miss(3) False by (auto simp: less_Suc_eq_0_disj)
      with miss show ?thesis
        unfolding first_available_def step by simp
    qed
  qed
qed

text \<open>
  The special path on the two handlers: a tile probes it only for a matching name and
  uses it at once when it is there; a folder page probes it first whatever the folder.
\<close>

lemma tile_zip_click_special:
  assumes "name \<noteq> []" and "toLowerCase name = ''minnesota''"
    and "head [] minnesotaZipPath = Status True"
  shows "tile_zip_click head name path =
           (TriggerDownload minnesotaZipPath ''minnesota.zip'', [minnesotaZipPath])"
  using assms by (simp add: tile_zip_click_def)

lemma tile_zip_click_not_special:
  assumes "toLowerCase name \<noteq> ''minnesota''"
  shows "snd (tile_zip_click head name path) =
           snd (findAvailableZip head [] (tile_candidates name path))"
  using assms by (simp add: tile_zip_click_def split: prod.split option.split)

lemma findAvailableZip_extends:
  "\<exists>more. snd (findAvailableZip head probed cs) = probed @ more"
  using findAvailableZip_first_available [of head probed cs]
  unfolding first_available_def by auto

lemma page_zip_click_special_first:
  "\<exists>more. snd (page_zip_click head folderName basePath) = minnesotaZipPath # more"
proof (cases "head [] minnesotaZipPath = Status True")
  case True
  then show ?thesis by (simp add: page_zip_click_def)
next
  case False
  obtain more where "snd (findAvailableZip head [minnesotaZipPath]
      (page_candidates folderName basePath)) = [minnesotaZipPath] @ more"
    using findAvailableZip_extends by blast
  with False show ?thesis
    by (cases "findAvailableZip head [minnesotaZipPath] (page_candidates folderName basePath)")
      (auto simp: page_zip_click_def split: option.split)
qed

section \<open>Downloads without an archive\<close>

text \<open>
  The effects an operation has added to the log, and among them those that hand
  something to the browser's download manager or wait.
\<close>

definition new_effects :: "'b page \<Rightarrow> 'b page \<Rightarrow> 'b effect list" where
  "new_effects before after = drop (length (effects before)) (effects after)"

fun transfers :: "'b effect list \<Rightarrow> 'b effect list" where
  "transfers [] = []"
| "transfers (Progress v # es) = transfers es"
| "transfers (Alert m # es) = transfers es"
| "transfers (e # es) = e # transfers es"

definition single_downloads :: "string \<Rightarrow> string \<Rightarrow> string list \<Rightarrow> 'b effect list" where
  "single_downloads basePath folderName files =
     concat (map (\<lambda>f. [Download (basePath @ f) (download_name folderName f), Pause 250]) files)"

lemma transfers_append: "transfers (es @ fs) = transfers es @ transfers fs"
  by (induction es rule: transfers.induct) simp_all

lemma transfers_single_downloads:
  "transfers (single_downloads basePath folderName files) = single_downloads basePath folderName files"
  by (induction files) (simp_all add: single_downloads_def)

lemma archives_single_downloads: "archives (single_downloads basePath folderName files) = []"
  by (induction files) (simp_all add: single_downloads_def)

lemma effects_downloadFilesSequentially:
  "effects (downloadFilesSequentially files basePath folderName pg) =
     effects pg @ single_downloads basePath folderName files"
  unfolding downloadFilesSequentially_def single_downloads_def
  by (induction files arbitrary: pg) (simp_all add: emit_def)

lemma effects_showGlobalProgress:
  "effects (showGlobalProgress pg) = effects pg @ (if bar pg then [] else [Progress 0])"
  by (simp add: showGlobalProgress_def)

lemma bar_downloadFilesSequentially:
  "bar (downloadFilesSequentially files basePath folderName pg) = bar pg"
  unfolding downloadFilesSequentially_def
  by (induction files arbitrary: pg) (simp_all add: emit_def)

section \<open>Discovering folders\<close>

text \<open>
  The fetch of a JSON document rejects, or answers with a status and a body that
  \<^verbatim>\<open>res.json()\<close> parses (to a value of the type \<open>'j\<close>) or fails to parse.
\<close>

datatype 'j json_fetch = JsonThrew | JsonResponse bool "'j option"

record folder =
  fname :: string
  fpath :: string

datatype 'j manifest = Json 'j | Folders "folder list"

text \<open>The \<^verbatim>\<open>try\<close> block of \<^verbatim>\<open>loadManifest\<close> (lines 79 to 82).\<close>

definition manifest_attempt :: "'j json_fetch \<Rightarrow> js_error + 'j manifest" where
  "manifest_attempt m =
     (case m of
        JsonThrew \<Rightarrow> Inl TransportError
      | JsonResponse ok body \<Rightarrow>
          if \<not> ok then Inl NoManifest
          else (case body of None \<Rightarrow> Inl ParseError | Some j \<Rightarrow> Inr (Json j)))"

definition folder_of :: "string \<Rightarrow> folder" where
  "folder_of h =
     \<lparr>fname = remove_first_slash h, fpath = ''/photos/'' @ remove_first_slash h @ ''/''\<rparr>"

text \<open>
  The inner \<^verbatim>\<open>try\<close> block (lines 86 to 93): the anchors of \<^verbatim>\<open>/photos/\<close>, whatever the
  status of the answer.
\<close>

definition heuristic_attempt :: "listing \<Rightarrow> js_error + 'j manifest" where
  "heuristic_attempt root_page =
     (case root_page of
        PageThrew \<Rightarrow> Inl TransportError
      | Page ok hrefs \<Rightarrow>
          Inr (Folders (map folder_of (filter (\<lambda>h. endsWith h ''/'') (filter_Boolean hrefs)))))"

text \<open>
  \<^verbatim>\<open>loadManifest\<close>, with the URLs it fetched. \<open>Inl\<close> would be an exception thrown to
  the caller.
\<close>

definition loadManifest :: "'j json_fetch \<Rightarrow> listing \<Rightarrow> string list \<times> (js_error + 'j manifest)" where
  "loadManifest m root_page =
     (case manifest_attempt m of
        Inr v \<Rightarrow> ([''/photos/manifest.json''], Inr v)
      | Inl err \<Rightarrow>
          (case heuristic_attempt root_page of
             Inr v \<Rightarrow> ([''/photos/manifest.json'', ''/photos/''], Inr v)
           | Inl err2 \<Rightarrow> ([''/photos/manifest.json'', ''/photos/''], Inr (Folders []))))"

section \<open>Expanding a folder tile\<close>

text \<open>
  The state of a tile that the click handler of its toggle reads and writes: the classes
  \<^verbatim>\<open>hidden\<close> of the contents and \<^verbatim>\<open>expanded\<close> of the toggle, \<^verbatim>\<open>dataset.loaded\<close>, and
  what the contents show. The model adds the number of calls of \<^verbatim>\<open>loadFolderIndex\<close>
  still awaited, the number made so far, and how often \<^verbatim>\<open>dataset.loaded\<close> went from
  unset to set.
\<close>

datatype 'd contents = Untouched | Rendered 'd | FailedToLoad

record 'd tile =
  hidden :: bool
  expanded :: bool
  loaded :: bool
  contents :: "'d contents"
  loading :: nat
  requests :: nat
  flips :: nat

definition new_tile :: "'d tile" where
  "new_tile = \<lparr>hidden = True, expanded = False, loaded = False, contents = Untouched,
                loading = 0, requests = 0, flips = 0\<rparr>"

text \<open>
  A click runs the handler up to its \<^verbatim>\<open>await\<close>; when the awaited load settles (with the
  data rendered, or with an exception caught), the rest of the handler runs.
\<close>

datatype 'd tile_event = Click | LoadSettled "'d option"

definition toggle_click :: "'d tile \<Rightarrow> 'd tile" where
  "toggle_click st =
     (let opened = \<not> hidden st;
          st1 = st\<lparr>hidden := opened, expanded := \<not> expanded st\<rparr>
      in if \<not> opened \<and> \<not> loaded st
         then st1\<lparr>loading := Suc (loading st), requests := Suc (requests st)\<rparr>
         else st1)"

definition load_settled :: "'d option \<Rightarrow> 'd tile \<Rightarrow> 'd tile" where
  "load_settled r st =
     (if loading st = 0 then st
      else (case r of
              Some d \<Rightarrow> st\<lparr>loading := loading st - 1, contents := Rendered d, loaded := True,
                            flips := (if loaded st then flips st else Suc (flips st))\<rparr>
            | None \<Rightarrow> st\<lparr>loading := loading st - 1, contents := FailedToLoad\<rparr>))"

fun tile_step :: "'d tile_event \<Rightarrow> 'd tile \<Rightarrow> 'd tile" where
  "tile_step Click st = toggle_click st"
| "tile_step (LoadSettled r) st = load_settled r st"

section \<open>Listing a folder\<close>

text \<open>
  The page of a folder: the fetch rejects, or the document has anchors and images, of
  which the model keeps the \<^verbatim>\<open>href\<close> and \<^verbatim>\<open>src\<close> attributes in document order.
\<close>

datatype index_page = IndexPageThrew | IndexPage "string option list" "string option list"

datatype 'j folder_index = IndexJson 'j | Listing "string list" "string list"

text \<open>The anchors that count (lines 256 to 266), files and folders each in document order.\<close>

definition kept_anchors :: "string option list \<Rightarrow> string list" where
  "kept_anchors hrefs =
     filter (\<lambda>h. \<not> startsWith h ''?'' \<and> h \<noteq> ''../'') (filter_Boolean hrefs)"

definition anchor_files :: "string option list \<Rightarrow> string list" where
  "anchor_files hrefs = filter (\<lambda>h. \<not> endsWith h ''/'') (kept_anchors hrefs)"

definition anchor_folders :: "string option list \<Rightarrow> string list" where
  "anchor_folders hrefs = map remove_first_slash (filter (\<lambda>h. endsWith h ''/'') (kept_anchors hrefs))"

text \<open>The chain of lines 272 to 277 on the \<^verbatim>\<open>src\<close> attributes of the images.\<close>

definition image_files :: "string option list \<Rightarrow> string list" where
  "image_files srcs =
     filter (\<lambda>s. \<not> startsWith s ''data:'')
       (map basename (map strip_leading_slashes (filter_Boolean srcs)))"

definition loadFolderIndex :: "'j json_fetch \<Rightarrow> index_page \<Rightarrow> js_error + 'j folder_index" where
  "loadFolderIndex index_json listing_page =
     (case index_json of
        JsonResponse True (Some j) \<Rightarrow> Inr (IndexJson j)
      | _ \<Rightarrow>
          (case listing_page of
             IndexPageThrew \<Rightarrow> Inl TransportError
           | IndexPage hrefs srcs \<Rightarrow>
               let files = anchor_files hrefs
               in Inr (Listing (if files = [] then files @ image_files srcs else files)
                        (anchor_folders hrefs))))"

section \<open>Invariants of a folder tile\<close>

lemma loaded_tile_step:
  "loaded st \<Longrightarrow>
     loaded (tile_step e st) \<and> requests (tile_step e st) = requests st \<and>
     flips (tile_step e st) = flips st"
  by (cases e) (auto simp: toggle_click_def load_settled_def Let_def split: option.split)

lemma loaded_fold_tile_step:
  "loaded st \<Longrightarrow>
     loaded (fold tile_step evs st) \<and> requests (fold tile_step evs st) = requests st \<and>
     flips (fold tile_step evs st) = flips st"
proof (induction evs arbitrary: st)
  case Nil
  then show ?case by simp
next
  case (Cons e evs)
  from loaded_tile_step [OF Cons.prems, of e] Cons.IH [of "tile_step e st"]
  show ?case by simp
qed

lemma flips_tile_step:
  "flips st = (if loaded st then 1 else 0) \<Longrightarrow>
     flips (tile_step e st) = (if loaded (tile_step e st) then 1 else 0)"
  by (cases e) (auto simp: toggle_click_def load_settled_def Let_def split: option.split)

lemma flips_fold_tile_step:
  "flips st = (if loaded st then 1 else 0) \<Longrightarrow>
     flips (fold tile_step evs st) = (if loaded (fold tile_step evs st) then 1 else 0)"
  by (induction evs arbitrary: st) (simp_all add: flips_tile_step)

section \<open>Claims about the concurrency-limited mapper\<close>

text \<open>
  Claim C10. For every input list and every mapper whose invocations never reject,
  \<^verbatim>\<open>mapWithConcurrency\<close> resolves to a list as long as the input whose \<open>i\<close>-th
  element is the value with which the invocation on the \<open>i\<close>-th item was fulfilled,
  whatever the concurrency limit and whatever the order in which the overlapping
  invocations complete (the scheduler \<open>sched\<close>).
\<close>

theorem mapWithConcurrency_results_in_input_order:
  assumes "never_rejects mapper list"
  shows "\<exists>rs. fst (mapWithConcurrency list mapper n sched s0) = Fulfilled rs \<and>
           length rs = length list \<and>
           (\<forall>i<length list. \<exists>s. snd (mapper i (list ! i) s) = Fulfilled (rs ! i))"
  using assms by (rule mapWithConcurrency_fulfilled)

theorem mapWithConcurrency_results_in_input_order_witness:
  "never_rejects (\<lambda>i x s. (Suc s, Fulfilled (x @ ''!''))) [''a'', ''b'', ''c''] \<and>
   fst (mapWithConcurrency [''a'', ''b'', ''c''] (\<lambda>i x s. (Suc s, Fulfilled (x @ ''!''))) 2
          (\<lambda>ids. [last ids]) (0::nat)) = Fulfilled [''a!'', ''b!'', ''c!'']"
proof -
  let ?m = "\<lambda>(i::nat) (x::string) (s::nat). (Suc s, Fulfilled (x @ ''!''))"
  let ?l = "[''a'', ''b'', ''c'']"
  have h: "never_rejects ?m ?l"
    by (simp add: never_rejects_def)
  from mapWithConcurrency_results_in_input_order [OF h, of 2 "\<lambda>ids. [last ids]" 0]
  obtain rs where rs: "fst (mapWithConcurrency ?l ?m 2 (\<lambda>ids. [last ids]) 0) = Fulfilled rs"
    and len: "length rs = 3"
    and el: "\<forall>i<3. \<exists>s. Fulfilled (?l ! i @ ''!'') = Fulfilled (rs ! i)"
    by auto
  have "rs ! 0 = ''a!''" using el [rule_format, of 0] by simp
  moreover have "rs ! 1 = ''b!''" using el [rule_format, of 1] by simp
  moreover have "rs ! 2 = ''c!''" using el [rule_format, of 2] by simp
  ultimately have "rs = [''a!'', ''b!'', ''c!'']"
    using len by (auto simp: list_eq_iff_nth_eq less_Suc_eq numeral_3_eq_3 numeral_2_eq_2)
  with h rs show ?thesis by simp
qed

text \<open>
  Claim C3, as the code has it. For every concurrency limit \<open>n \<ge> 1\<close>, every task list,
  every mapper and every order of completion, no prefix of the history of a run of
  \<^verbatim>\<open>mapWithConcurrency\<close> has more than \<open>n\<close> invocations in flight (started and not
  yet settled). When no invocation rejects, the invocations started are exactly the
  positions of the list, each once and in order, each of them settles exactly once, and
  the state the invocations share is at the end what the mapper, invoked on the item of
  each position, has made of the initial state, in the order in which the invocations
  settled. The two mappers the program gives to \<^verbatim>\<open>mapWithConcurrency\<close> catch every
  failure, so their invocations never reject.
\<close>

theorem mapWithConcurrency_window:
  assumes "1 \<le> n"
  shows "(\<forall>k\<le>length (trace (snd (mapWithConcurrency list mapper n sch s0))).
            length (in_flight (take k (trace (snd (mapWithConcurrency list mapper n sch s0))))) \<le> n) \<and>
         (never_rejects mapper list \<longrightarrow>
            started (trace (snd (mapWithConcurrency list mapper n sch s0))) = [0..<length list] \<and>
            set (settled_ids (trace (snd (mapWithConcurrency list mapper n sch s0)))) = {0..<length list} \<and>
            distinct (settled_ids (trace (snd (mapWithConcurrency list mapper n sch s0)))) \<and>
            shared (snd (mapWithConcurrency list mapper n sch s0)) =
              fold (\<lambda>j s. fst (mapper j (list ! j) s))
                (settled_ids (trace (snd (mapWithConcurrency list mapper n sch s0)))) s0) \<and>
         never_rejects (createZip_mapper env folderPath folderName m) files \<and>
         never_rejects (downloadAll_mapper env' m') tasks"
  using mapWithConcurrency_bounded [OF assms, of list mapper sch s0]
    mapWithConcurrency_started [OF assms, of mapper list sch s0]
    mapWithConcurrency_settled [of mapper list n sch s0]
    createZip_mapper_never_rejects [of env folderPath folderName m files]
    downloadAll_mapper_never_rejects [of env' m' tasks]
  by (simp add: bounded_def)

theorem mapWithConcurrency_window_witness:
  "(1::nat) \<le> 2 \<and>
   never_rejects (createZip_mapper example_env ''/photos/x/'' ''x'' 3) [''a.jpg'', ''b.jpg'', ''c.jpg''] \<and>
   trace (snd (mapWithConcurrency [''a.jpg'', ''b.jpg'', ''c.jpg'']
     (createZip_mapper example_env ''/photos/x/'' ''x'' 3) 2 (\<lambda>ids. [last ids])
     \<lparr>page = \<lparr>bar = True, effects = []\<rparr>, zipped = [], completed = 0\<rparr>)) =
     [Started 0, Started 1, Settled 1, Started 2, Settled 2, Settled 0] \<and>
   length (in_flight (take 4 (trace (snd (mapWithConcurrency [''a.jpg'', ''b.jpg'', ''c.jpg'']
     (createZip_mapper example_env ''/photos/x/'' ''x'' 3) 2 (\<lambda>ids. [last ids])
     \<lparr>page = \<lparr>bar = True, effects = []\<rparr>, zipped = [], completed = 0\<rparr>))))) \<le> 2 \<and>
   started (trace (snd (mapWithConcurrency [''a.jpg'', ''b.jpg'', ''c.jpg'']
     (createZip_mapper example_env ''/photos/x/'' ''x'' 3) 2 (\<lambda>ids. [last ids])
     \<lparr>page = \<lparr>bar = True, effects = []\<rparr>, zipped = [], completed = 0\<rparr>))) = [0, 1, 2] \<and>
   shared (snd (mapWithConcurrency [''a.jpg'', ''b.jpg'', ''c.jpg'']
     (createZip_mapper example_env ''/photos/x/'' ''x'' 3) 2 (\<lambda>ids. [last ids])
     \<lparr>page = \<lparr>bar = True, effects = []\<rparr>, zipped = [], completed = 0\<rparr>)) =
     fold (\<lambda>j s. fst (createZip_mapper example_env ''/photos/x/'' ''x'' 3 j
                        ([''a.jpg'', ''b.jpg'', ''c.jpg''] ! j) s)) [1, 2, 0]
       \<lparr>page = \<lparr>bar = True, effects = []\<rparr>, zipped = [], completed = 0\<rparr> \<and>
   shared (snd (mapWithConcurrency [''a.jpg'', ''b.jpg'', ''c.jpg'']
     (createZip_mapper example_env ''/photos/x/'' ''x'' 3) 2 (\<lambda>ids. [last ids])
     \<lparr>page = \<lparr>bar = True, effects = []\<rparr>, zipped = [], completed = 0\<rparr>)) =
     \<lparr>page = \<lparr>bar = True, effects = [Progress 33, Progress 67, Progress 100]\<rparr>,
      zipped = [((''x'', ''c.jpg''), ()), ((''x'', ''a.jpg''), ())], completed = 3\<rparr>"
proof -
  let ?l = "[''a.jpg'', ''b.jpg'', ''c.jpg'']"
  let ?m = "createZip_mapper example_env ''/photos/x/'' ''x'' 3"
  let ?s0 = "\<lparr>page = \<lparr>bar = True, effects = []\<rparr>, zipped = [], completed = 0\<rparr> :: unit build"
  let ?run = "snd (mapWithConcurrency ?l ?m 2 (\<lambda>ids. [last ids]) ?s0)"
  let ?tr = "trace ?run"
  have n: "(1::nat) \<le> 2" by simp
  have tr: "?tr = [Started 0, Started 1, Settled 1, Started 2, Settled 2, Settled 0]"
    by code_simp
  have fin: "fold (\<lambda>j s. fst (?m j (?l ! j) s)) [1, 2, 0] ?s0 =
      \<lparr>page = \<lparr>bar = True, effects = [Progress 33, Progress 67, Progress 100]\<rparr>,
       zipped = [((''x'', ''c.jpg''), ()), ((''x'', ''a.jpg''), ())], completed = 3\<rparr>"
    by code_simp
  from mapWithConcurrency_window [OF n, of ?l ?m "\<lambda>ids. [last ids]" ?s0 example_env "''/photos/x/''" "''x''" 3 ?l]
  have b: "\<forall>k\<le>length ?tr. length (in_flight (take k ?tr)) \<le> 2"
    and s: "never_rejects ?m ?l \<longrightarrow> started ?tr = [0..<length ?l] \<and>
              shared ?run = fold (\<lambda>j s. fst (?m j (?l ! j) s)) (settled_ids ?tr) ?s0"
    and nr: "never_rejects ?m ?l"
    by blast+
  have "4 \<le> length ?tr" by (simp add: tr)
  with b have "length (in_flight (take 4 ?tr)) \<le> 2" by blast
  moreover have "[0..<length ?l] = [0, 1, 2::nat]" by code_simp
  with s nr have "started ?tr = [0, 1, 2]" by simp
  moreover have "settled_ids ?tr = [1, 2, 0]" by (simp add: tr)
  with s nr have sh: "shared ?run = fold (\<lambda>j s. fst (?m j (?l ! j) s)) [1, 2, 0] ?s0" by simp
  moreover from sh fin have "shared ?run =
      \<lparr>page = \<lparr>bar = True, effects = [Progress 33, Progress 67, Progress 100]\<rparr>,
       zipped = [((''x'', ''c.jpg''), ()), ((''x'', ''a.jpg''), ())], completed = 3\<rparr>"
    by (rule trans)
  ultimately show ?thesis using n nr tr by blast
qed

text \<open>
  Claim C3 as stated fails for a mapper with an invocation that rejects. With the limit 1
  and three items of which the first is rejected, \<^verbatim>\<open>await Promise.race(executing)\<close>
  throws in the first iteration, the function leaves its loop with a rejected promise,
  and the second and the third item are never started.
\<close>

theorem mapWithConcurrency_stops_at_a_rejection:
  "length [''a.jpg'', ''b.jpg'', ''c.jpg''] = 3 \<and>
   fst (mapWithConcurrency [''a.jpg'', ''b.jpg'', ''c.jpg'']
          (\<lambda>i x s. (Suc s, if x = ''a.jpg'' then Rejected else Fulfilled x)) 1 (\<lambda>ids. ids) (0::nat)) =
     Rejected \<and>
   trace (snd (mapWithConcurrency [''a.jpg'', ''b.jpg'', ''c.jpg'']
          (\<lambda>i x s. (Suc s, if x = ''a.jpg'' then Rejected else Fulfilled x)) 1 (\<lambda>ids. ids) (0::nat))) =
     [Started 0, Settled 0] \<and>
   started (trace (snd (mapWithConcurrency [''a.jpg'', ''b.jpg'', ''c.jpg'']
          (\<lambda>i x s. (Suc s, if x = ''a.jpg'' then Rejected else Fulfilled x)) 1 (\<lambda>ids. ids) (0::nat)))) =
     [0]"
  by code_simp

section \<open>Claims about archive building and progress\<close>

text \<open>
  Claim C1, as the code has it. A client-side build of a folder and a download of all
  visible folders that find at least one file end normally, and the values such an
  operation gives the bar are: 0 if it had to create the bar; after the \<open>k\<close>-th of its
  \<open>m\<close> tasks has completed, \<^verbatim>\<open>Math.round((k / m) * 100)\<close> as the doubles give it, which
  never decreases and is 100 after the last task; when an archive is encoded, every
  percentage the encoder reports that is not 0, rounded (these may be lower than the
  value before them); and a last 100. Without the zip library the batch has no encoding
  step and its values never decrease. The outcomes of the single fetches do not matter.
\<close>

theorem progress_of_an_operation:
  "(hasZip env \<and> fetch_page env 0 folderPath = Page True hrefs \<and> listed_files hrefs \<noteq> [] \<longrightarrow>
      fst (createZipFromFolder env folderPath folderName pg) = Returned \<and>
      written pg (snd (createZipFromFolder env folderPath folderName pg)) =
        build_progress (bar pg) (length (listed_files hrefs)) (encoding env)) \<and>
   (hasZip env \<and> gather env 0 tiles [] = Some tasks \<and> tasks \<noteq> [] \<longrightarrow>
      fst (downloadAllVisible env tiles pg) = Returned \<and>
      written pg (snd (downloadAllVisible env tiles pg)) =
        build_progress (bar pg) (length tasks) (encoding env)) \<and>
   (\<not> hasZip env \<and> gather env 0 tiles [] = Some tasks \<and> tasks \<noteq> [] \<longrightarrow>
      fst (downloadAllVisible env tiles pg) = Returned \<and>
      written pg (snd (downloadAllVisible env tiles pg)) =
        (if bar pg then [] else [0]) @ fetch_progress (length tasks) @ [100]) \<and>
   sorted ((if b then [] else [0]) @ fetch_progress m) \<and>
   (0 < m \<longrightarrow> last (fetch_progress m) = 100 \<and> sorted ((if b then [] else [0]) @ fetch_progress m @ [100])) \<and>
   last (build_progress b m percents) = 100"
proof -
  have zipA: "fst (createZipFromFolder env folderPath folderName pg) = Returned \<and>
      written pg (snd (createZipFromFolder env folderPath folderName pg)) =
        build_progress (bar pg) (length (listed_files hrefs)) (encoding env)"
    if "hasZip env" "fetch_page env 0 folderPath = Page True hrefs" "listed_files hrefs \<noteq> []"
    using createZipFromFolder_builds [OF that(2) refl that(3) that(1), of folderName pg]
    by (auto simp: written_def build_progress_def progress_values_append
        progress_values_Progress progress_values_showGlobalProgress)
  have zipB: "fst (downloadAllVisible env tiles pg) = Returned \<and>
      written pg (snd (downloadAllVisible env tiles pg)) =
        build_progress (bar pg) (length tasks) (encoding env)"
    if "hasZip env" "gather env 0 tiles [] = Some tasks" "tasks \<noteq> []"
    using downloadAllVisible_builds [OF that(2) that(3) that(1), of pg]
    by (auto simp: written_def build_progress_def progress_values_append
        progress_values_Progress progress_values_showGlobalProgress)
  have seqB: "fst (downloadAllVisible env tiles pg) = Returned \<and>
      written pg (snd (downloadAllVisible env tiles pg)) =
        (if bar pg then [] else [0]) @ fetch_progress (length tasks) @ [100]"
    if "\<not> hasZip env" "gather env 0 tiles [] = Some tasks" "tasks \<noteq> []"
    using that
    by (simp add: downloadAllVisible_def Let_def written_def set_progress_def
        progress_values_append progress_values_download_each
        progress_values_showGlobalProgress fetch_progress_def del: upt_Suc)
  have fin: "sorted ((if b then [] else [0]) @ fetch_progress m @ [100])" if "0 < m"
  proof -
    have "v \<le> 100" if "v \<in> set (fetch_progress m)" for v
      using that \<open>0 < m\<close> by (rule fetch_progress_le)
    then show ?thesis
      using sorted_created_fetch_progress [of b m]
      by (auto simp: sorted_append)
  qed
  show ?thesis
    using zipA zipB seqB fin sorted_created_fetch_progress [of b m] last_fetch_progress [of m]
      last_build_progress [of b m percents]
    by blast
qed

theorem progress_of_an_operation_witness:
  "hasZip example_env \<and>
   fetch_page example_env 0 ''/photos/x/'' = Page True [Some ''../'', Some ''a.jpg'', Some ''b.jpg''] \<and>
   listed_files [Some ''../'', Some ''a.jpg'', Some ''b.jpg''] = [''a.jpg'', ''b.jpg''] \<and>
   fst (createZipFromFolder example_env ''/photos/x/'' ''x'' \<lparr>bar = False, effects = []\<rparr>) = Returned \<and>
   written \<lparr>bar = False, effects = []\<rparr>
     (snd (createZipFromFolder example_env ''/photos/x/'' ''x'' \<lparr>bar = False, effects = []\<rparr>)) =
     [0, 50, 100, 50, 100] \<and>
   gather example_env 0 [(''x'', ''/photos/x/''), (''y'', ''/photos/y/'')] [] =
     Some [\<lparr>tpath = ''/photos/x/'', tfile = ''a.jpg'', tfolder = ''x''\<rparr>,
           \<lparr>tpath = ''/photos/x/'', tfile = ''b.jpg'', tfolder = ''x''\<rparr>,
           \<lparr>tpath = ''/photos/y/'', tfile = ''a.jpg'', tfolder = ''y''\<rparr>,
           \<lparr>tpath = ''/photos/y/'', tfile = ''b.jpg'', tfolder = ''y''\<rparr>] \<and>
   fst (downloadAllVisible example_env [(''x'', ''/photos/x/''), (''y'', ''/photos/y/'')]
     \<lparr>bar = False, effects = []\<rparr>) = Returned \<and>
   written \<lparr>bar = False, effects = []\<rparr>
     (snd (downloadAllVisible example_env [(''x'', ''/photos/x/''), (''y'', ''/photos/y/'')]
       \<lparr>bar = False, effects = []\<rparr>)) = [0, 25, 50, 75, 100, 50, 100] \<and>
   \<not> hasZip (example_env\<lparr>hasZip := False\<rparr>) \<and>
   gather (example_env\<lparr>hasZip := False\<rparr>) 0 [(''x'', ''/photos/x/''), (''y'', ''/photos/y/'')] [] =
     Some [\<lparr>tpath = ''/photos/x/'', tfile = ''a.jpg'', tfolder = ''x''\<rparr>,
           \<lparr>tpath = ''/photos/x/'', tfile = ''b.jpg'', tfolder = ''x''\<rparr>,
           \<lparr>tpath = ''/photos/y/'', tfile = ''a.jpg'', tfolder = ''y''\<rparr>,
           \<lparr>tpath = ''/photos/y/'', tfile = ''b.jpg'', tfolder = ''y''\<rparr>] \<and>
   fst (downloadAllVisible (example_env\<lparr>hasZip := False\<rparr>) [(''x'', ''/photos/x/''), (''y'', ''/photos/y/'')]
     \<lparr>bar = False, effects = []\<rparr>) = Returned \<and>
   written \<lparr>bar = False, effects = []\<rparr>
     (snd (downloadAllVisible (example_env\<lparr>hasZip := False\<rparr>) [(''x'', ''/photos/x/''), (''y'', ''/photos/y/'')]
       \<lparr>bar = False, effects = []\<rparr>)) = [0, 25, 50, 75, 100, 100] \<and>
   (0::nat) < 4 \<and> last (fetch_progress 4) = 100 \<and> sorted ([0] @ fetch_progress 4 @ [100])"
proof -
  let ?hrefs = "[Some ''../'', Some ''a.jpg'', Some ''b.jpg'']"
  let ?pg = "\<lparr>bar = False, effects = []\<rparr> :: unit page"
  let ?tiles = "[(''x'', ''/photos/x/''), (''y'', ''/photos/y/'')]"
  let ?tasks = "[\<lparr>tpath = ''/photos/x/'', tfile = ''a.jpg'', tfolder = ''x''\<rparr>,
           \<lparr>tpath = ''/photos/x/'', tfile = ''b.jpg'', tfolder = ''x''\<rparr>,
           \<lparr>tpath = ''/photos/y/'', tfile = ''a.jpg'', tfolder = ''y''\<rparr>,
           \<lparr>tpath = ''/photos/y/'', tfile = ''b.jpg'', tfolder = ''y''\<rparr>]"
  let ?env' = "example_env\<lparr>hasZip := False\<rparr>"
  have h: "hasZip example_env" by code_simp
  have p: "fetch_page example_env 0 ''/photos/x/'' = Page True ?hrefs" by code_simp
  have l: "listed_files ?hrefs = [''a.jpg'', ''b.jpg'']" by code_simp
  have e: "encoding example_env = [50]" by code_simp
  have g: "gather example_env 0 ?tiles [] = Some ?tasks" by code_simp
  have h': "\<not> hasZip ?env'" by simp
  have g': "gather ?env' 0 ?tiles [] = Some ?tasks" by code_simp
  have b2: "build_progress False 2 [50] = [0, 50, 100, 50, 100]" by code_simp
  have b4: "build_progress False 4 [50] = [0, 25, 50, 75, 100, 50, 100]" by code_simp
  have f4: "fetch_progress 4 = [25, 50, 75, 100]" by code_simp
  have len: "length ?tasks = 4" by simp
  have ne: "?tasks \<noteq> []" by simp
  have bp: "bar ?pg = False" by simp
  have ll: "length (listed_files ?hrefs) = 2" by (simp add: l)
  have ln: "listed_files ?hrefs \<noteq> []" by (simp add: l)
  note T = progress_of_an_operation
    [of example_env "''/photos/x/''" ?hrefs "''x''" ?pg ?tiles ?tasks False 4 "[]"]
  note T' = progress_of_an_operation
    [of ?env' "''/photos/x/''" ?hrefs "''x''" ?pg ?tiles ?tasks False 4 "[]"]
  from T h p ln have "fst (createZipFromFolder example_env ''/photos/x/'' ''x'' ?pg) = Returned \<and>
      written ?pg (snd (createZipFromFolder example_env ''/photos/x/'' ''x'' ?pg)) =
        build_progress (bar ?pg) (length (listed_files ?hrefs)) (encoding example_env)"
    by blast
  then have A: "fst (createZipFromFolder example_env ''/photos/x/'' ''x'' ?pg) = Returned \<and>
      written ?pg (snd (createZipFromFolder example_env ''/photos/x/'' ''x'' ?pg)) =
        [0, 50, 100, 50, 100]"
    unfolding bp ll e b2 .
  from T h g ne have "fst (downloadAllVisible example_env ?tiles ?pg) = Returned \<and>
      written ?pg (snd (downloadAllVisible example_env ?tiles ?pg)) =
        build_progress (bar ?pg) (length ?tasks) (encoding example_env)"
    by blast
  then have B: "fst (downloadAllVisible example_env ?tiles ?pg) = Returned \<and>
      written ?pg (snd (downloadAllVisible example_env ?tiles ?pg)) = [0, 25, 50, 75, 100, 50, 100]"
    unfolding bp len e b4 .
  from T' h' g' ne have "fst (downloadAllVisible ?env' ?tiles ?pg) = Returned \<and>
      written ?pg (snd (downloadAllVisible ?env' ?tiles ?pg)) =
        (if bar ?pg then [] else [0]) @ fetch_progress (length ?tasks) @ [100]"
    by blast
  then have C: "fst (downloadAllVisible ?env' ?tiles ?pg) = Returned \<and>
      written ?pg (snd (downloadAllVisible ?env' ?tiles ?pg)) = [0, 25, 50, 75, 100, 100]"
    unfolding bp len f4 by simp
  from T have "(0::nat) < 4 \<longrightarrow> last (fetch_progress 4) = 100 \<and>
      sorted ((if False then [] else [0]) @ fetch_progress 4 @ [100])"
    by blast
  then have D: "last (fetch_progress 4) = 100 \<and> sorted ([0] @ fetch_progress 4 @ [100])" by simp
  have z: "(0::nat) < 4" by simp
  from A B C D h p l g h' g' z show ?thesis by (intro conjI) (erule conjunct1 conjunct2 | assumption)+
qed

text \<open>
  Claim C1 as stated fails: in the example the bar goes to 50 and 100 while the two
  tasks complete, and back to 50 when the encoder reports its first percentage. And a
  download of all visible folders that finds no file creates the bar with the value 0,
  alerts and returns, so the bar is not at 100 at its end.
\<close>

theorem progress_drops_when_encoding_starts:
  "written \<lparr>bar = True, effects = []\<rparr>
     (snd (createZipFromFolder example_env ''/photos/x/'' ''x'' \<lparr>bar = True, effects = []\<rparr>)) =
     [50, 100, 50, 100] \<and>
   \<not> sorted (written \<lparr>bar = True, effects = []\<rparr>
     (snd (createZipFromFolder example_env ''/photos/x/'' ''x'' \<lparr>bar = True, effects = []\<rparr>))) \<and>
   downloadAllVisible example_env [] \<lparr>bar = False, effects = []\<rparr> =
     (Returned, \<lparr>bar = True, effects = [Progress 0, Alert ''No files found'']\<rparr>)"
proof -
  have "written \<lparr>bar = True, effects = []\<rparr>
     (snd (createZipFromFolder example_env ''/photos/x/'' ''x'' \<lparr>bar = True, effects = []\<rparr>)) =
     [50, 100, 50, 100]"
    by code_simp
  moreover have "downloadAllVisible example_env [] \<lparr>bar = False, effects = []\<rparr> =
     (Returned, \<lparr>bar = True, effects = [Progress 0, Alert ''No files found'']\<rparr>)"
    by code_simp
  ultimately show ?thesis by simp
qed

text \<open>
  Claim C4. In a client-side build of a folder that lists at least one file, a fetch
  that fails (the fetch rejects, the status is not ok, or the body does not decode) only
  leaves its file out: the operation returns normally and downloads one archive; the
  entries of the archive are named by the base names of exactly those files whose fetch
  answered with an ok status and a body that decodes, every entry holds the body of
  such a fetch of a file of its name, and the last value of the bar is 100. For the
  folder of \<^verbatim>\<open>a.jpg\<close> and \<^verbatim>\<open>b.jpg\<close> in which the fetch of \<^verbatim>\<open>b.jpg\<close> rejects, the
  archive holds \<^verbatim>\<open>a.jpg\<close> alone; for the folder of five files of which one fetch
  rejects, one answers with a status that is not ok and one has a body that does not
  decode, it holds the other two.
\<close>

theorem createZipFromFolder_skips_failed_files:
  assumes "hasZip env" and "fetch_page env 0 folderPath = Page True hrefs"
    and "listed_files hrefs = files" and "files \<noteq> []"
  shows "\<exists>z. fst (createZipFromFolder env folderPath folderName pg) = Returned \<and>
           archives (effects (snd (createZipFromFolder env folderPath folderName pg))) =
             archives (effects pg) @ [z] \<and>
           fst ` set z =
             {(or_else folderName ''photos'', basename (files ! j)) |j. j < length files \<and>
                (\<exists>blob. fetch_file env j (folderPath @ files ! j) = Response True (Some blob))} \<and>
           (\<forall>e\<in>set z. \<exists>j<length files.
              fst e = (or_else folderName ''photos'', basename (files ! j)) \<and>
              fetch_file env j (folderPath @ files ! j) = Response True (Some (snd e))) \<and>
           last (progress_values (effects (snd (createZipFromFolder env folderPath folderName pg)))) = 100"
proof -
  from createZipFromFolder_archive [OF assms(2,3,4,1), of folderName pg]
  obtain z where r: "fst (createZipFromFolder env folderPath folderName pg) = Returned"
    and e: "effects (snd (createZipFromFolder env folderPath folderName pg)) =
             effects (showGlobalProgress pg) @ map Progress (fetch_progress (length files)) @
             map Progress (encode_progress (encoding env)) @
             [DownloadArchive z (or_else folderName ''photos'' @ ''.zip''), Progress 100]"
    and k: "fst ` set z =
             {(or_else folderName ''photos'', basename (files ! j)) |j. j < length files \<and>
                (\<exists>blob. fetch_file env j (folderPath @ files ! j) = Response True (Some blob))}"
    and v: "\<forall>e\<in>set z. \<exists>j<length files.
              fst e = (or_else folderName ''photos'', basename (files ! j)) \<and>
              fetch_file env j (folderPath @ files ! j) = Response True (Some (snd e))"
    by blast
  from e have "archives (effects (snd (createZipFromFolder env folderPath folderName pg))) =
      archives (effects pg) @ [z]"
    by (simp add: archives_append archives_Progress archives_showGlobalProgress)
  moreover from e have "last (progress_values (effects (snd (createZipFromFolder env folderPath folderName pg)))) = 100"
    by (simp add: progress_values_append)
  ultimately show ?thesis using r k v by blast
qed

theorem createZipFromFolder_skips_failed_files_witness:
  "hasZip example_env \<and>
   fetch_page example_env 0 ''/photos/x/'' = Page True [Some ''../'', Some ''a.jpg'', Some ''b.jpg''] \<and>
   listed_files [Some ''../'', Some ''a.jpg'', Some ''b.jpg''] = [''a.jpg'', ''b.jpg''] \<and>
   fetch_file example_env 1 ''/photos/x/b.jpg'' = FetchThrew \<and>
   fst (createZipFromFolder example_env ''/photos/x/'' ''x'' \<lparr>bar = True, effects = []\<rparr>) = Returned \<and>
   archives (effects (snd (createZipFromFolder example_env ''/photos/x/'' ''x''
     \<lparr>bar = True, effects = []\<rparr>))) = [[((''x'', ''a.jpg''), ())]] \<and>
   last (progress_values (effects (snd (createZipFromFolder example_env ''/photos/x/'' ''x''
     \<lparr>bar = True, effects = []\<rparr>)))) = 100 \<and>
   hasZip faulty_env \<and>
   fetch_page faulty_env 0 ''/photos/x/'' =
     Page True [Some ''a.jpg'', Some ''b.jpg'', Some ''c.jpg'', Some ''d.jpg'', Some ''e.jpg''] \<and>
   listed_files [Some ''a.jpg'', Some ''b.jpg'', Some ''c.jpg'', Some ''d.jpg'', Some ''e.jpg''] =
     [''a.jpg'', ''b.jpg'', ''c.jpg'', ''d.jpg'', ''e.jpg''] \<and>
   fetch_file faulty_env 1 ''/photos/x/b.jpg'' = FetchThrew \<and>
   fetch_file faulty_env 2 ''/photos/x/c.jpg'' = Response False (Some ''Not Found'') \<and>
   fetch_file faulty_env 3 ''/photos/x/d.jpg'' = Response True None \<and>
   fst (createZipFromFolder faulty_env ''/photos/x/'' ''x'' \<lparr>bar = True, effects = []\<rparr>) = Returned \<and>
   archives (effects (snd (createZipFromFolder faulty_env ''/photos/x/'' ''x''
     \<lparr>bar = True, effects = []\<rparr>))) =
     [[((''x'', ''a.jpg''), ''bytes of /photos/x/a.jpg''),
       ((''x'', ''e.jpg''), ''bytes of /photos/x/e.jpg'')]] \<and>
   last (progress_values (effects (snd (createZipFromFolder faulty_env ''/photos/x/'' ''x''
     \<lparr>bar = True, effects = []\<rparr>)))) = 100"
proof -
  let ?hrefs = "[Some ''../'', Some ''a.jpg'', Some ''b.jpg'']"
  let ?pg = "\<lparr>bar = True, effects = []\<rparr> :: unit page"
  have h: "hasZip example_env" by code_simp
  have p: "fetch_page example_env 0 ''/photos/x/'' = Page True ?hrefs" by code_simp
  have l: "listed_files ?hrefs = [''a.jpg'', ''b.jpg'']" by code_simp
  have f: "fetch_file example_env 1 ''/photos/x/b.jpg'' = FetchThrew"
    by code_simp
  have a: "archives (effects (snd (createZipFromFolder example_env ''/photos/x/'' ''x'' ?pg))) =
      [[((''x'', ''a.jpg''), ())]]"
    by code_simp
  from createZipFromFolder_skips_failed_files [OF h p l, of "''x''" ?pg]
  have r: "fst (createZipFromFolder example_env ''/photos/x/'' ''x'' ?pg) = Returned"
    and e: "last (progress_values (effects (snd (createZipFromFolder example_env ''/photos/x/'' ''x'' ?pg)))) = 100"
    by auto
  let ?hrefs' = "[Some ''a.jpg'', Some ''b.jpg'', Some ''c.jpg'', Some ''d.jpg'', Some ''e.jpg'']"
  let ?pg' = "\<lparr>bar = True, effects = []\<rparr> :: string page"
  have h': "hasZip faulty_env" by code_simp
  have p': "fetch_page faulty_env 0 ''/photos/x/'' = Page True ?hrefs'" by code_simp
  have l': "listed_files ?hrefs' = [''a.jpg'', ''b.jpg'', ''c.jpg'', ''d.jpg'', ''e.jpg'']"
    by code_simp
  have f1: "fetch_file faulty_env 1 ''/photos/x/b.jpg'' = FetchThrew" by code_simp
  have f2: "fetch_file faulty_env 2 ''/photos/x/c.jpg'' = Response False (Some ''Not Found'')"
    by code_simp
  have f3: "fetch_file faulty_env 3 ''/photos/x/d.jpg'' = Response True None" by code_simp
  have a': "archives (effects (snd (createZipFromFolder faulty_env ''/photos/x/'' ''x'' ?pg'))) =
      [[((''x'', ''a.jpg''), ''bytes of /photos/x/a.jpg''),
        ((''x'', ''e.jpg''), ''bytes of /photos/x/e.jpg'')]]"
    by code_simp
  from createZipFromFolder_skips_failed_files [OF h' p' l', of "''x''" ?pg']
  have r': "fst (createZipFromFolder faulty_env ''/photos/x/'' ''x'' ?pg') = Returned"
    and e': "last (progress_values (effects (snd (createZipFromFolder faulty_env ''/photos/x/'' ''x'' ?pg')))) = 100"
    by auto
  from h p l f r a e h' p' l' f1 f2 f3 r' a' e' show ?thesis
    by (intro conjI)
qed

section \<open>Claims about pre-built archives\<close>

text \<open>
  Claim C5. For a folder tile whose name does not match the special name, the click
  on the zip button probes \<^verbatim>\<open>path + F + '.zip'\<close>, \<^verbatim>\<open>path + F + '.ZIP'\<close>,
  \<^verbatim>\<open>'/photos/' + F + '.zip'\<close> and \<^verbatim>\<open>'/photos/altfiles/' + F + '.zip'\<close> in this
  order, where \<open>F\<close> is the URL-encoded name (\<^verbatim>\<open>photos\<close> for an empty name) and the
  path ends in a slash; it stops at the first probe that succeeds, downloads that
  candidate and probes nothing after it; when every probe fails \<^verbatim>\<open>findAvailableZip\<close>
  returns null and the handler goes on to build the archive in the browser.
\<close>

theorem tile_zip_click_probes_candidates_in_order:
  assumes "toLowerCase name \<noteq> ''minnesota''"
  shows "tile_candidates name path =
           [path @ encodeURIComponent (or_else name ''photos'') @ ''.zip'',
            path @ encodeURIComponent (or_else name ''photos'') @ ''.ZIP'',
            ''/photos/'' @ encodeURIComponent (or_else name ''photos'') @ ''.zip'',
            ''/photos/altfiles/'' @ encodeURIComponent (or_else name ''photos'') @ ''.zip''] \<and>
         first_available head [] (tile_candidates name path)
           (fst (findAvailableZip head [] (tile_candidates name path)))
           (snd (tile_zip_click head name path)) \<and>
         fst (tile_zip_click head name path) =
           (case fst (findAvailableZip head [] (tile_candidates name path)) of
              Some found \<Rightarrow> TriggerDownload found (or_else name ''photos'' @ ''.zip'')
            | None \<Rightarrow> ClientZip path name)"
proof -
  obtain r probed where f: "findAvailableZip head [] (tile_candidates name path) = (r, probed)"
    by (cases "findAvailableZip head [] (tile_candidates name path)")
  from assms f have click: "tile_zip_click head name path =
      (case r of Some found \<Rightarrow> TriggerDownload found (or_else name ''photos'' @ ''.zip'')
       | None \<Rightarrow> ClientZip path name, probed)"
    by (simp add: tile_zip_click_def split: option.split)
  show ?thesis
  proof (intro conjI)
    show "tile_candidates name path =
        [path @ encodeURIComponent (or_else name ''photos'') @ ''.zip'',
         path @ encodeURIComponent (or_else name ''photos'') @ ''.ZIP'',
         ''/photos/'' @ encodeURIComponent (or_else name ''photos'') @ ''.zip'',
         ''/photos/altfiles/'' @ encodeURIComponent (or_else name ''photos'') @ ''.zip'']"
      by (simp add: tile_candidates_def Let_def)
    show "first_available head [] (tile_candidates name path)
        (fst (findAvailableZip head [] (tile_candidates name path)))
        (snd (tile_zip_click head name path))"
      using findAvailableZip_first_available [of head "[]" "tile_candidates name path"]
      unfolding click f by simp
    show "fst (tile_zip_click head name path) =
        (case fst (findAvailableZip head [] (tile_candidates name path)) of
           Some found \<Rightarrow> TriggerDownload found (or_else name ''photos'' @ ''.zip'')
         | None \<Rightarrow> ClientZip path name)"
      unfolding click f by simp
  qed
qed

theorem tile_zip_click_probes_candidates_in_order_witness:
  "toLowerCase ''Foo Bar'' \<noteq> ''minnesota'' \<and>
   tile_candidates ''Foo Bar'' ''/photos/Foo Bar/'' =
     [''/photos/Foo Bar/Foo%20Bar.zip'', ''/photos/Foo Bar/Foo%20Bar.ZIP'',
      ''/photos/Foo%20Bar.zip'', ''/photos/altfiles/Foo%20Bar.zip''] \<and>
   tile_zip_click (\<lambda>probed url. if url = ''/photos/Foo%20Bar.zip'' then Status True else Threw)
     ''Foo Bar'' ''/photos/Foo Bar/'' =
     (TriggerDownload ''/photos/Foo%20Bar.zip'' ''Foo Bar.zip'',
      [''/photos/Foo Bar/Foo%20Bar.zip'', ''/photos/Foo Bar/Foo%20Bar.ZIP'', ''/photos/Foo%20Bar.zip''])"
proof -
  let ?head = "\<lambda>(probed::string list) url. if url = ''/photos/Foo%20Bar.zip'' then Status True else Threw"
  let ?cs = "[''/photos/Foo Bar/Foo%20Bar.zip'', ''/photos/Foo Bar/Foo%20Bar.ZIP'',
      ''/photos/Foo%20Bar.zip'', ''/photos/altfiles/Foo%20Bar.zip'']"
  have h: "toLowerCase ''Foo Bar'' \<noteq> ''minnesota''" by code_simp
  have e: "encodeURIComponent (or_else ''Foo Bar'' ''photos'') = ''Foo%20Bar''" by code_simp
  have o: "or_else ''Foo Bar'' ''photos'' = ''Foo Bar''" by code_simp
  have f: "fst (findAvailableZip ?head [] ?cs) = Some ''/photos/Foo%20Bar.zip''" by code_simp
  have p: "snd (tile_zip_click ?head ''Foo Bar'' ''/photos/Foo Bar/'') = take 3 ?cs" by code_simp
  note T = tile_zip_click_probes_candidates_in_order [OF h, of "''/photos/Foo Bar/''" ?head]
  from T have c: "tile_candidates ''Foo Bar'' ''/photos/Foo Bar/'' = ?cs"
    by (simp add: e)
  from T have "fst (tile_zip_click ?head ''Foo Bar'' ''/photos/Foo Bar/'') =
      (case fst (findAvailableZip ?head [] (tile_candidates ''Foo Bar'' ''/photos/Foo Bar/'')) of
         Some found \<Rightarrow> TriggerDownload found (or_else ''Foo Bar'' ''photos'' @ ''.zip'')
       | None \<Rightarrow> ClientZip ''/photos/Foo Bar/'' ''Foo Bar'')"
    by blast
  then have "fst (tile_zip_click ?head ''Foo Bar'' ''/photos/Foo Bar/'') =
      TriggerDownload ''/photos/Foo%20Bar.zip'' ''Foo Bar.zip''"
    unfolding c f o by simp
  with p have "tile_zip_click ?head ''Foo Bar'' ''/photos/Foo Bar/'' =
      (TriggerDownload ''/photos/Foo%20Bar.zip'' ''Foo Bar.zip'', take 3 ?cs)"
    by (simp add: prod_eq_iff)
  with h c show ?thesis by simp
qed

text \<open>
  Claim C2 at the zip button of a folder page. \<^verbatim>\<open>renderFolderPage\<close> probes the
  special path whatever the folder is: on the page of the folder \<^verbatim>\<open>paris\<close>, where the
  special archive exists, the button downloads \<^verbatim>\<open>minnesota.zip\<close>.
\<close>

theorem page_zip_click_downloads_minnesota_for_paris:
  "page_zip_click (\<lambda>probed url. Status (url = ''/photos/minnesota/minnesota.zip''))
     ''paris'' ''/photos/paris/'' =
     (TriggerDownload ''/photos/minnesota/minnesota.zip'' ''minnesota.zip'',
      [''/photos/minnesota/minnesota.zip''])"
  by code_simp

section \<open>Claims about the fallback without the zip library\<close>

text \<open>
  Claim C6. When the zip library cannot be loaded, \<^verbatim>\<open>createZipFromFolder\<close> on a folder
  whose listing names \<open>M\<close> files returns normally, and what it hands to the browser is,
  for each file in the order of the listing, one click on a download link followed by
  a pause of 250 ms: \<open>M\<close> single-file downloads and no archive.
\<close>

theorem createZipFromFolder_without_zip_downloads_each_file:
  assumes "\<not> hasZip env" and "fetch_page env 0 folderPath = Page True hrefs"
  shows "fst (createZipFromFolder env folderPath folderName pg) = Returned \<and>
         transfers (new_effects pg (snd (createZipFromFolder env folderPath folderName pg))) =
           single_downloads folderPath folderName (listed_files hrefs) \<and>
         length (filter (\<lambda>e. \<exists>u n. e = Download u n)
           (new_effects pg (snd (createZipFromFolder env folderPath folderName pg)))) =
           length (listed_files hrefs) \<and>
         archives (new_effects pg (snd (createZipFromFolder env folderPath folderName pg))) = []"
proof (cases "listed_files hrefs = []")
  case True
  with assms show ?thesis
    by (simp add: createZipFromFolder_def emit_def single_downloads_def new_effects_def)
next
  case False
  have n: "length (filter (\<lambda>e. \<exists>u n. e = Download u n) (single_downloads p f files)) = length files"
    for p f and files :: "string list"
    by (induction files) (simp_all add: single_downloads_def)
  from False assms show ?thesis
    by (simp add: createZipFromFolder_def Let_def set_progress_def new_effects_def
        effects_showGlobalProgress effects_downloadFilesSequentially
        bar_downloadFilesSequentially transfers_append transfers_single_downloads
        archives_append archives_single_downloads n showGlobalProgress_def)
qed

theorem createZipFromFolder_without_zip_downloads_each_file_witness:
  "\<not> hasZip (example_env\<lparr>hasZip := False\<rparr>) \<and>
   fetch_page (example_env\<lparr>hasZip := False\<rparr>) 0 ''/photos/my x/'' =
     Page True [Some ''../'', Some ''a.jpg'', Some ''b.jpg''] \<and>
   fst (createZipFromFolder (example_env\<lparr>hasZip := False\<rparr>) ''/photos/my x/'' ''my x''
     \<lparr>bar = False, effects = []\<rparr>) = Returned \<and>
   transfers (new_effects \<lparr>bar = False, effects = []\<rparr>
     (snd (createZipFromFolder (example_env\<lparr>hasZip := False\<rparr>) ''/photos/my x/'' ''my x''
       \<lparr>bar = False, effects = []\<rparr>))) =
     [Download ''/photos/my x/a.jpg'' ''my_x_a.jpg'', Pause 250,
      Download ''/photos/my x/b.jpg'' ''my_x_b.jpg'', Pause 250]"
proof -
  let ?env = "example_env\<lparr>hasZip := False\<rparr>"
  let ?hrefs = "[Some ''../'', Some ''a.jpg'', Some ''b.jpg'']"
  let ?pg = "\<lparr>bar = False, effects = []\<rparr> :: unit page"
  have h: "\<not> hasZip ?env" by code_simp
  have p: "fetch_page ?env 0 ''/photos/my x/'' = Page True ?hrefs" by code_simp
  have d: "single_downloads ''/photos/my x/'' ''my x'' (listed_files ?hrefs) =
      ([Download ''/photos/my x/a.jpg'' ''my_x_a.jpg'', Pause 250,
        Download ''/photos/my x/b.jpg'' ''my_x_b.jpg'', Pause 250] :: unit effect list)"
    by code_simp
  from createZipFromFolder_without_zip_downloads_each_file [OF h p, of "''my x''" ?pg]
  have "fst (createZipFromFolder ?env ''/photos/my x/'' ''my x'' ?pg) = Returned"
    and "transfers (new_effects ?pg (snd (createZipFromFolder ?env ''/photos/my x/'' ''my x'' ?pg))) =
      single_downloads ''/photos/my x/'' ''my x'' (listed_files ?hrefs)"
    by blast+
  with h p d show ?thesis by simp
qed

section \<open>Claims about folder discovery\<close>

text \<open>
  Claim C7. \<^verbatim>\<open>loadManifest\<close> never throws to its caller. When the manifest cannot be
  had (the fetch rejects, the status is not ok, or the body is not JSON) it fetches
  \<^verbatim>\<open>/photos/\<close> and makes a folder of every anchor whose \<^verbatim>\<open>href\<close> ends in a slash; when
  that fetch fails too, or the page has no such anchor, the result is an object with an
  empty folder list.
\<close>

theorem loadManifest_never_throws:
  "(\<exists>v. snd (loadManifest m root_page) = Inr v) \<and>
   (\<forall>v. manifest_attempt m = Inr v \<longrightarrow>
      loadManifest m root_page = ([''/photos/manifest.json''], Inr v)) \<and>
   (\<forall>e. manifest_attempt m = Inl e \<longrightarrow>
      fst (loadManifest m root_page) = [''/photos/manifest.json'', ''/photos/''] \<and>
      snd (loadManifest m root_page) =
        Inr (case root_page of
               PageThrew \<Rightarrow> Folders []
             | Page ok hrefs \<Rightarrow>
                 Folders (map folder_of (filter (\<lambda>h. endsWith h ''/'') (filter_Boolean hrefs)))))"
  by (auto simp: loadManifest_def heuristic_attempt_def split: sum.splits listing.splits)

theorem loadManifest_never_throws_witness:
  "manifest_attempt (JsonResponse False None :: unit json_fetch) = Inl NoManifest \<and>
   loadManifest (JsonResponse False None :: unit json_fetch)
     (Page True [Some ''europe/'', Some ''readme.txt'', None]) =
     ([''/photos/manifest.json'', ''/photos/''],
      Inr (Folders [\<lparr>fname = ''europe'', fpath = ''/photos/europe/''\<rparr>])) \<and>
   loadManifest (JsonThrew :: unit json_fetch) PageThrew =
     ([''/photos/manifest.json'', ''/photos/''], Inr (Folders [])) \<and>
   loadManifest (JsonThrew :: unit json_fetch) (Page True [Some ''readme.txt'']) =
     ([''/photos/manifest.json'', ''/photos/''], Inr (Folders []))"
proof -
  let ?m = "JsonResponse False None :: unit json_fetch"
  let ?t = "JsonThrew :: unit json_fetch"
  let ?p = "Page True [Some ''europe/'', Some ''readme.txt'', None]"
  have a: "manifest_attempt ?m = Inl NoManifest" by code_simp
  have b: "manifest_attempt ?t = Inl TransportError" by code_simp
  have f: "map folder_of (filter (\<lambda>h. endsWith h ''/'') (filter_Boolean [Some ''europe/'', Some ''readme.txt'', None])) =
      [\<lparr>fname = ''europe'', fpath = ''/photos/europe/''\<rparr>]"
    by code_simp
  have g: "map folder_of (filter (\<lambda>h. endsWith h ''/'') (filter_Boolean [Some ''readme.txt''])) = []"
    by code_simp
  from loadManifest_never_throws [of ?m ?p] a
  have "fst (loadManifest ?m ?p) = [''/photos/manifest.json'', ''/photos/'']"
    and "snd (loadManifest ?m ?p) = Inr (Folders [\<lparr>fname = ''europe'', fpath = ''/photos/europe/''\<rparr>])"
    by (simp_all add: f)
  then have 1: "loadManifest ?m ?p = ([''/photos/manifest.json'', ''/photos/''],
      Inr (Folders [\<lparr>fname = ''europe'', fpath = ''/photos/europe/''\<rparr>]))"
    by (simp add: prod_eq_iff)
  from loadManifest_never_throws [of ?t PageThrew] b
  have "fst (loadManifest ?t PageThrew) = [''/photos/manifest.json'', ''/photos/'']"
    and "snd (loadManifest ?t PageThrew) = Inr (Folders [])"
    by simp_all
  then have 2: "loadManifest ?t PageThrew = ([''/photos/manifest.json'', ''/photos/''], Inr (Folders []))"
    by (simp add: prod_eq_iff)
  from loadManifest_never_throws [of ?t "Page True [Some ''readme.txt'']"] b
  have "fst (loadManifest ?t (Page True [Some ''readme.txt''])) = [''/photos/manifest.json'', ''/photos/'']"
    and "snd (loadManifest ?t (Page True [Some ''readme.txt''])) = Inr (Folders [])"
    by (simp_all add: g)
  then have 3: "loadManifest ?t (Page True [Some ''readme.txt'']) =
      ([''/photos/manifest.json'', ''/photos/''], Inr (Folders []))"
    by (simp add: prod_eq_iff)
  from a 1 2 3 show ?thesis by simp
qed

text \<open>
  Claim C8. Once the contents of a tile are loaded (\<^verbatim>\<open>dataset.loaded\<close> is set), no
  sequence of clicks and of settling loads makes the tile call \<^verbatim>\<open>loadFolderIndex\<close> again
  or unsets the flag; and from a new tile the flag goes from unset to set at most once.
\<close>

theorem tile_loads_once:
  "(loaded st \<longrightarrow>
      loaded (fold tile_step evs st) \<and> requests (fold tile_step evs st) = requests st \<and>
      flips (fold tile_step evs st) = flips st) \<and>
   flips (fold tile_step evs new_tile) \<le> 1 \<and>
   loaded (fold tile_step evs new_tile) = (flips (fold tile_step evs new_tile) = 1)"
proof -
  have "flips (fold tile_step evs (new_tile :: 'a tile)) =
      (if loaded (fold tile_step evs (new_tile :: 'a tile)) then 1 else 0)"
    by (rule flips_fold_tile_step) (simp add: new_tile_def)
  then show ?thesis
    using loaded_fold_tile_step [of st evs] by simp
qed

theorem tile_loads_once_witness:
  "loaded (fold tile_step [Click, LoadSettled (Some ())] new_tile) \<and>
   requests (fold tile_step [Click, LoadSettled (Some ())] new_tile) = 1 \<and>
   requests (fold tile_step [Click, Click, Click, Click]
     (fold tile_step [Click, LoadSettled (Some ())] new_tile)) = 1 \<and>
   flips (fold tile_step [Click, Click, LoadSettled None, Click, LoadSettled (Some ()), Click, Click]
     (new_tile :: unit tile)) \<le> 1"
proof -
  let ?st = "fold tile_step [Click, LoadSettled (Some ())] (new_tile :: unit tile)"
  have l: "loaded ?st" by code_simp
  have r: "requests ?st = 1" by code_simp
  from tile_loads_once [of ?st "[Click, Click, Click, Click]"] l
  have "requests (fold tile_step [Click, Click, Click, Click] ?st) = requests ?st" by blast
  moreover from tile_loads_once [of ?st "[Click, Click, LoadSettled None, Click, LoadSettled (Some ()), Click, Click]"]
  have "flips (fold tile_step [Click, Click, LoadSettled None, Click, LoadSettled (Some ()), Click, Click]
     (new_tile :: unit tile)) \<le> 1" by blast
  ultimately show ?thesis using l r by simp
qed

text \<open>
  Claim C9 on a page whose only image has a \<^verbatim>\<open>data:\<close> URI as its source.
  \<^verbatim>\<open>loadFolderIndex\<close> strips the path components before it looks for the prefix
  \<^verbatim>\<open>data:\<close>, and the media type of a \<^verbatim>\<open>data:\<close> URI has a slash in it: what is left
  of the URI becomes a file entry.
\<close>

theorem loadFolderIndex_lists_data_uri:
  "loadFolderIndex (JsonThrew :: unit json_fetch)
     (IndexPage [Some ''../''] [Some ''data:image/png;base64,AAAA'', Some ''thumbs/a.jpg'']) =
     Inr (Listing [''png;base64,AAAA'', ''a.jpg''] [])"
  by code_simp

end
